theory Spec2Isabelle
  imports Complex_Main
begin

section \<open>Strings\<close>

text \<open>
  A Python \<^verbatim>\<open>str\<close> is a sequence of Unicode code points, and \<^verbatim>\<open>len\<close> counts code
  points. The captions of \<^verbatim>\<open>postcode_flow_diagram.py\<close> contain U+2192 and U+2022, which
  are no \<^typ>\<open>char\<close>, so a string is modelled as the list of its code points.
\<close>

type_synonym pystr = "nat list"

definition py :: "string \<Rightarrow> pystr" where
  "py s = map of_char s"

section \<open>The caption wrapper: \<^verbatim>\<open>textwrap.fill\<close>\<close>

text \<open>
  \<^verbatim>\<open>box_text\<close> wraps its caption with \<^verbatim>\<open>fill(text, width=wrap)\<close> of the standard
  library module \<^verbatim>\<open>textwrap\<close> (CPython 3.11), that is
  \<^verbatim>\<open>TextWrapper(width=wrap).fill(text)\<close> with every other option at its default:
  \<^verbatim>\<open>expand_tabs=True\<close>, \<^verbatim>\<open>tabsize=8\<close>, \<^verbatim>\<open>replace_whitespace=True\<close>,
  \<^verbatim>\<open>fix_sentence_endings=False\<close>, \<^verbatim>\<open>break_long_words=True\<close>,
  \<^verbatim>\<open>break_on_hyphens=True\<close>, \<^verbatim>\<open>drop_whitespace=True\<close>, \<^verbatim>\<open>max_lines=None\<close>, empty
  indents. The definitions below follow the methods of \<^verbatim>\<open>TextWrapper\<close> with these
  options fixed.
\<close>

text \<open>
  The exceptions of a run, by where they are raised: \<^verbatim>\<open>StopIteration\<close> by \<^verbatim>\<open>next(ys)\<close>,
  \<^verbatim>\<open>ValueError\<close> by \<^verbatim>\<open>fill\<close>, and whatever \<^verbatim>\<open>plt.subplots\<close>, \<^verbatim>\<open>fig.savefig\<close> and
  \<^verbatim>\<open>print\<close> raise.
\<close>

datatype error = StopIteration | ValueError | FigureError | SaveError | PrintError

subsection \<open>Character classes\<close>

text \<open>\<^verbatim>\<open>_whitespace = '\t\n\x0b\x0c\r '\<close>: the characters the wrapper breaks at.\<close>

definition ws_char :: "nat \<Rightarrow> bool" where
  "ws_char c = (c = 9 \<or> c = 10 \<or> c = 11 \<or> c = 12 \<or> c = 13 \<or> c = 32)"

text \<open>
  \<^verbatim>\<open>str.isspace\<close>, which decides \<^verbatim>\<open>chunk.strip() == ''\<close>: the whole table of CPython.
\<close>

definition isspace :: "nat \<Rightarrow> bool" where
  "isspace c = ((9 \<le> c \<and> c \<le> 13) \<or> (28 \<le> c \<and> c \<le> 32) \<or> c = 133 \<or> c = 160
     \<or> c = 5760 \<or> (8192 \<le> c \<and> c \<le> 8202) \<or> c = 8232 \<or> c = 8233 \<or> c = 8239
     \<or> c = 8287 \<or> c = 12288)"

text \<open>
  The classes of the regular expression \<^verbatim>\<open>wordsep_re\<close>: \<^verbatim>\<open>\d\<close>, \<^verbatim>\<open>\w\<close>,
  \<^verbatim>\<open>letter = [^\d\W]\<close> and \<^verbatim>\<open>word_punct = [\w!"'&.,?]\<close>. On the code points below 256
  they are written out. Beyond U+00FF they are the tables of the interpreter's
  Unicode database, which the functions take as a parameter: the code points that
  match \<^verbatim>\<open>\w\<close> and those that match \<^verbatim>\<open>\d\<close>.
\<close>

record unicode =
  uni_word :: "nat \<Rightarrow> bool"
  uni_digit :: "nat \<Rightarrow> bool"

definition re_digit :: "unicode \<Rightarrow> nat \<Rightarrow> bool" where
  "re_digit U c = (if c < 256 then 48 \<le> c \<and> c \<le> 57 else uni_digit U c)"

definition re_word :: "unicode \<Rightarrow> nat \<Rightarrow> bool" where
  "re_word U c =
     (if c < 256
      then (48 \<le> c \<and> c \<le> 57) \<or> (65 \<le> c \<and> c \<le> 90) \<or> c = 95 \<or> (97 \<le> c \<and> c \<le> 122)
        \<or> c = 170 \<or> c = 178 \<or> c = 179 \<or> c = 181 \<or> c = 185 \<or> c = 186
        \<or> (188 \<le> c \<and> c \<le> 190) \<or> (192 \<le> c \<and> c \<le> 214) \<or> (216 \<le> c \<and> c \<le> 246)
        \<or> (248 \<le> c \<and> c \<le> 255)
      else uni_word U c)"

definition letter :: "unicode \<Rightarrow> nat \<Rightarrow> bool" where
  "letter U c = (re_word U c \<and> \<not> re_digit U c)"

definition word_punct :: "unicode \<Rightarrow> nat \<Rightarrow> bool" where
  "word_punct U c =
     (re_word U c \<or> c = 33 \<or> c = 34 \<or> c = 39 \<or> c = 38 \<or> c = 46 \<or> c = 44 \<or> c = 63)"

abbreviation (input) hyphen :: nat where
  "hyphen \<equiv> 45"

subsection \<open>\<^verbatim>\<open>_munge_whitespace\<close>\<close>

text \<open>
  \<^verbatim>\<open>str.expandtabs(8)\<close>: a tab becomes the spaces up to the next multiple of 8 of the
  column \<open>j\<close>, which restarts after \<^verbatim>\<open>'\n'\<close> and \<^verbatim>\<open>'\r'\<close>.
\<close>

fun expandtabs :: "nat \<Rightarrow> pystr \<Rightarrow> pystr" where
  "expandtabs j [] = []"
| "expandtabs j (c # cs) =
     (if c = 9 then replicate (8 - j mod 8) 32 @ expandtabs (j + (8 - j mod 8)) cs
      else if c = 10 \<or> c = 13 then c # expandtabs 0 cs
      else c # expandtabs (Suc j) cs)"

text \<open>\<^verbatim>\<open>text.translate(unicode_whitespace_trans)\<close> after the tab expansion.\<close>

definition munge_whitespace :: "pystr \<Rightarrow> pystr" where
  "munge_whitespace text = map (\<lambda>c. if ws_char c then 32 else c) (expandtabs 0 text)"

subsection \<open>\<^verbatim>\<open>_split\<close>: the chunks of \<^verbatim>\<open>wordsep_re\<close>\<close>

text \<open>
  \<^verbatim>\<open>wordsep_re.split(text)\<close> with the empty strings removed. The expression is one
  group of three alternatives, and at every position of a string one of them matches
  (the first at a whitespace character, the third at any other), so the chunks are the
  successive matches. In each function \<open>behind\<close> is the text to the left of the
  position, nearest character first, for the lookbehinds.

  The lookahead \<^verbatim>\<open>(?= letter -? letter)\<close> of the hyphenated word:
\<close>

fun hyphen_ahead :: "unicode \<Rightarrow> pystr \<Rightarrow> bool" where
  "hyphen_ahead U (a # b # c # _) =
     (letter U a \<and> (if b = hyphen then letter U c else letter U b))"
| "hyphen_ahead U [a, b] = (letter U a \<and> letter U b)"
| "hyphen_ahead U _ = False"

text \<open>
  The lookbehinds \<^verbatim>\<open>(?<=letter{2}-)\<close> and \<^verbatim>\<open>(?<=letter-letter-)\<close>, read at the hyphen
  (which is not part of \<open>behind\<close>):
\<close>

fun hyphen_behind :: "unicode \<Rightarrow> pystr \<Rightarrow> bool" where
  "hyphen_behind U (a # b # c # _) =
     (letter U a \<and> (letter U b \<or> (b = hyphen \<and> letter U c)))"
| "hyphen_behind U [a, b] = (letter U a \<and> letter U b)"
| "hyphen_behind U _ = False"

text \<open>\<^verbatim>\<open>-{2,}\<close> followed by \<^verbatim>\<open>\w\<close>, at the head of the rest.\<close>

definition emdash_ahead :: "unicode \<Rightarrow> pystr \<Rightarrow> bool" where
  "emdash_ahead U rest =
     (let h = length (takeWhile (\<lambda>c. c = hyphen) rest)
      in 2 \<le> h \<and> (case drop h rest of [] \<Rightarrow> False | c # _ \<Rightarrow> re_word U c))"

text \<open>\<^verbatim>\<open>(?<=word_punct)\<close>.\<close>

fun punct_behind :: "unicode \<Rightarrow> pystr \<Rightarrow> bool" where
  "punct_behind U [] = False"
| "punct_behind U (a # _) = word_punct U a"

text \<open>
  The third alternative, \<^verbatim>\<open>[^whitespace]+?\<close> and its three endings, after the first
  character of the word: how many more characters the match takes. The lazy
  quantifier tries the endings, in their order, before it takes another character.
\<close>

fun word_more :: "unicode \<Rightarrow> pystr \<Rightarrow> pystr \<Rightarrow> nat" where
  "word_more U behind [] = 0"
| "word_more U behind (c # cs) =
     (if c = hyphen \<and> hyphen_behind U behind \<and> hyphen_ahead U cs then 1
      else if ws_char c then 0
      else if punct_behind U behind \<and> emdash_ahead U (c # cs) then 0
      else Suc (word_more U (c # behind) cs))"

text \<open>The length of the match at a position, less its first character.\<close>

definition chunk_more :: "unicode \<Rightarrow> pystr \<Rightarrow> nat \<Rightarrow> pystr \<Rightarrow> nat" where
  "chunk_more U behind c cs =
     (if ws_char c then length (takeWhile ws_char cs)
      else if punct_behind U behind \<and> emdash_ahead U (c # cs)
        then length (takeWhile (\<lambda>c. c = hyphen) cs)
      else word_more U (c # behind) cs)"

function split_from :: "unicode \<Rightarrow> pystr \<Rightarrow> pystr \<Rightarrow> pystr list" where
  "split_from U behind [] = []"
| "split_from U behind (c # cs) =
     (c # take (chunk_more U behind c cs) cs)
       # split_from U (rev (take (chunk_more U behind c cs) cs) @ c # behind)
           (drop (chunk_more U behind c cs) cs)"
  by pat_completeness auto
termination
  by (relation "measure (\<lambda>(U, behind, rest). length rest)") auto

definition split_chunks :: "unicode \<Rightarrow> pystr \<Rightarrow> pystr list" where
  "split_chunks U text = split_from U [] (munge_whitespace text)"

subsection \<open>\<^verbatim>\<open>_handle_long_word\<close> and \<^verbatim>\<open>_wrap_chunks\<close>\<close>

text \<open>\<^verbatim>\<open>chunk.strip() == ''\<close>.\<close>

definition blank :: "pystr \<Rightarrow> bool" where
  "blank s = list_all isspace s"

text \<open>\<^verbatim>\<open>s.rfind(c)\<close>, \<open>None\<close> for \<^verbatim>\<open>-1\<close>.\<close>

fun rfind :: "nat \<Rightarrow> pystr \<Rightarrow> nat option" where
  "rfind c [] = None"
| "rfind c (x # xs) =
     (case rfind c xs of
        Some i \<Rightarrow> Some (Suc i)
      | None \<Rightarrow> if x = c then Some 0 else None)"

text \<open>
  \<^verbatim>\<open>_handle_long_word\<close>: where the chunk that fits on no line is cut. \<open>cur_len\<close> never
  exceeds \<open>width\<close> (the inner loop adds a chunk only while it fits), so the subtraction
  is Python's.
\<close>

definition long_word_end :: "nat \<Rightarrow> nat \<Rightarrow> pystr \<Rightarrow> nat" where
  "long_word_end width cur_len chunk =
     (let space_left = (if width < 1 then 1 else width - cur_len)
      in if length chunk > space_left
         then (case rfind hyphen (take space_left chunk) of
                 None \<Rightarrow> space_left
               | Some h \<Rightarrow>
                   if 0 < h \<and> \<not> list_all (\<lambda>c. c = hyphen) (take h chunk) then h + 1
                   else space_left)
         else space_left)"

text \<open>The inner loop: the chunks that fit on the line, and those left.\<close>

fun fit_chunks :: "nat \<Rightarrow> nat \<Rightarrow> pystr list \<Rightarrow> pystr list \<times> pystr list" where
  "fit_chunks width cur_len [] = ([], [])"
| "fit_chunks width cur_len (c # cs) =
     (if cur_len + length c \<le> width
      then (case fit_chunks width (cur_len + length c) cs of
              (cur_line, rest) \<Rightarrow> (c # cur_line, rest))
      else ([], c # cs))"

text \<open>The long chunk at the head of what is left, if there is one.\<close>

fun handle_long_word :: "nat \<Rightarrow> pystr list \<Rightarrow> pystr list \<Rightarrow> pystr list \<times> pystr list" where
  "handle_long_word width cur_line [] = (cur_line, [])"
| "handle_long_word width cur_line (c # cs) =
     (if length c > width
      then (let e = long_word_end width (sum_list (map length cur_line)) c
            in (cur_line @ [take e c], drop e c # cs))
      else (cur_line, c # cs))"

definition drop_trailing :: "pystr list \<Rightarrow> pystr list" where
  "drop_trailing cur_line =
     (if cur_line \<noteq> [] \<and> blank (last cur_line) then butlast cur_line else cur_line)"

text \<open>
  One pass of the outer loop over a non-empty stack of chunks: the chunks of the line
  and the chunks left. \<open>started\<close> is \<^verbatim>\<open>bool(lines)\<close>.
\<close>

fun wrap_line :: "nat \<Rightarrow> bool \<Rightarrow> pystr list \<Rightarrow> pystr list \<times> pystr list" where
  "wrap_line width started [] = ([], [])"
| "wrap_line width started (c # cs) =
     (case fit_chunks width 0 (if blank c \<and> started then cs else c # cs) of
        (cur_line, rest) \<Rightarrow>
          (case handle_long_word width cur_line rest of
             (cur_line', rest') \<Rightarrow> (drop_trailing cur_line', rest')))"

fun chunk_weight :: "pystr list \<Rightarrow> nat" where
  "chunk_weight [] = 0"
| "chunk_weight (c # cs) = Suc (length c) + chunk_weight cs"

text \<open>
  Every pass of the outer loop makes the stack of chunks lighter: it moves a chunk to
  the line, or cuts at least one character off a chunk that fits on no line.
\<close>

lemma fit_chunks_weight:
  "fit_chunks w n cs = (l, r) \<Longrightarrow> chunk_weight r + length l \<le> chunk_weight cs"
proof (induction cs arbitrary: n l r)
  case Nil
  then show ?case by simp
next
  case (Cons a cs)
  show ?case
  proof (cases "n + length a \<le> w")
    case True
    obtain l1 r1 where f: "fit_chunks w (n + length a) cs = (l1, r1)"
      by (cases "fit_chunks w (n + length a) cs")
    from Cons.IH [OF f] Cons.prems True f show ?thesis by auto
  next
    case False
    with Cons.prems show ?thesis by auto
  qed
qed

lemma fit_chunks_stuck:
  "fit_chunks w n cs = ([], r) \<Longrightarrow>
     r = cs \<and> (case cs of [] \<Rightarrow> True | c # _ \<Rightarrow> w < n + length c)"
  by (cases cs) (auto split: if_splits prod.splits)

lemma long_word_end_pos: "cur_len = 0 \<Longrightarrow> 0 < long_word_end w cur_len c"
  by (auto simp: long_word_end_def Let_def split: option.splits)

lemma handle_long_word_weight:
  "handle_long_word w l cs = (l', r) \<Longrightarrow> chunk_weight r \<le> chunk_weight cs"
  by (cases cs) (auto simp: Let_def split: if_splits)

lemma handle_long_word_stuck:
  "handle_long_word w [] (c # cs) = (l', r) \<Longrightarrow> w < length c \<Longrightarrow>
     chunk_weight r < chunk_weight (c # cs)"
  using long_word_end_pos [of 0 w c] by (auto simp: Let_def split: if_splits)

lemma wrap_line_weight:
  assumes "wrap_line w s (c # cs) = (l, r)"
  shows "chunk_weight r < chunk_weight (c # cs)"
proof -
  define cs1 where "cs1 = (if blank c \<and> s then cs else c # cs)"
  obtain l1 r1 where f: "fit_chunks w 0 cs1 = (l1, r1)"
    by (cases "fit_chunks w 0 cs1")
  obtain l2 r2 where h: "handle_long_word w l1 r1 = (l2, r2)"
    by (cases "handle_long_word w l1 r1")
  from assms f h have r: "r = r2" by (simp add: cs1_def)
  have le1: "chunk_weight cs1 \<le> chunk_weight (c # cs)" by (simp add: cs1_def)
  show ?thesis
  proof (cases "l1 = []")
    case False
    with fit_chunks_weight [OF f] have "chunk_weight r1 < chunk_weight cs1"
      by (cases l1) auto
    with handle_long_word_weight [OF h] le1 r show ?thesis by simp
  next
    case True
    with fit_chunks_stuck f
    have st: "r1 = cs1" "(case cs1 of [] \<Rightarrow> True | c # _ \<Rightarrow> w < 0 + length c)"
      by blast+
    show ?thesis
    proof (cases cs1)
      case Nil
      with st h r show ?thesis by simp
    next
      case (Cons d ds)
      with st have "w < length d" by simp
      with handle_long_word_stuck [of w d ds l2 r2] h st True Cons
      have "chunk_weight r2 < chunk_weight cs1" by simp
      with le1 r show ?thesis by simp
    qed
  qed
qed

text \<open>
  The outer loop \<^verbatim>\<open>while chunks:\<close> of \<^verbatim>\<open>_wrap_chunks\<close>; a line is appended when
  \<^verbatim>\<open>cur_line\<close> is not empty.
\<close>

function wrap_loop :: "nat \<Rightarrow> pystr list \<Rightarrow> pystr list \<Rightarrow> pystr list" where
  "wrap_loop width lines [] = lines"
| "wrap_loop width lines (c # cs) =
     (case wrap_line width (lines \<noteq> []) (c # cs) of
        (cur_line, rest) \<Rightarrow>
          wrap_loop width (if cur_line \<noteq> [] then lines @ [concat cur_line] else lines) rest)"
  by pat_completeness auto
termination
  by (relation "measure (\<lambda>(width, lines, chunks). chunk_weight chunks)")
     (auto dest: wrap_line_weight [OF sym] simp del: wrap_line.simps)

text \<open>\<^verbatim>\<open>_wrap_chunks\<close>: a width that is not positive raises \<^verbatim>\<open>ValueError\<close>.\<close>

definition wrap_chunks :: "int \<Rightarrow> pystr list \<Rightarrow> error + pystr list" where
  "wrap_chunks width chunks =
     (if width \<le> 0 then Inl ValueError else Inr (wrap_loop (nat width) [] chunks))"

text \<open>\<^verbatim>\<open>TextWrapper.wrap\<close>: the lines of the caption.\<close>

definition wrap :: "unicode \<Rightarrow> int \<Rightarrow> pystr \<Rightarrow> error + pystr list" where
  "wrap U width text = wrap_chunks width (split_chunks U text)"

text \<open>\<^verbatim>\<open>sep.join(lines)\<close> for a separator of one character.\<close>

fun join :: "nat \<Rightarrow> pystr list \<Rightarrow> pystr" where
  "join sep [] = []"
| "join sep [l] = l"
| "join sep (l # ls) = l @ sep # join sep ls"

text \<open>\<^verbatim>\<open>fill(text, width=wrap)\<close>, that is \<^verbatim>\<open>"\n".join(self.wrap(text))\<close>.\<close>

definition fill :: "unicode \<Rightarrow> int \<Rightarrow> pystr \<Rightarrow> error + pystr" where
  "fill U width text =
     (case wrap U width text of Inl e \<Rightarrow> Inl e | Inr lines \<Rightarrow> Inr (join 10 lines))"

section \<open>The diagram: \<^verbatim>\<open>build_diagram\<close>\<close>

text \<open>
  Coordinates are Python floats written as decimal literals; the program compares
  none of them and computes only \<^verbatim>\<open>(x0 + x1) / 2.0\<close> and \<^verbatim>\<open>y - 0.006\<close>. They are modelled
  as the exact rationals the literals denote.

  The drawing calls on \<^verbatim>\<open>ax\<close> are recorded, in their order, with the arguments that
  vary. They only add an artist to the axes and are taken not to raise. The calls that
  depend on more can raise: \<^verbatim>\<open>plt.subplots(figsize=(width, height))\<close>, which rejects
  a figure size, \<^verbatim>\<open>fig.savefig(output, ...)\<close>, which renders the picture and writes
  the file, and \<^verbatim>\<open>print\<close>, which writes to the standard output. When they do is a
  parameter of the model.
\<close>

datatype draw_op =
    Plot rat  \<comment> \<open>\<^verbatim>\<open>ax.plot([x, x], [0.02, 0.98], ...)\<close>: the dashed line of a lane\<close>
  | Title rat pystr int  \<comment> \<open>\<^verbatim>\<open>ax.text(x, 0.99, label, fontsize=title_font, ...)\<close>\<close>
  | Annotate "rat \<times> rat" "rat \<times> rat"
      \<comment> \<open>\<^verbatim>\<open>ax.annotate("", xy=..., xytext=..., arrowprops=...)\<close>: the arrow from
          \<^verbatim>\<open>xytext\<close> to \<^verbatim>\<open>xy\<close>, its head at \<^verbatim>\<open>xy\<close>\<close>
  | BoxText rat rat pystr int
      \<comment> \<open>\<^verbatim>\<open>ax.text(x, y, tx, fontsize=label_font, bbox=...)\<close>: a caption in its box,
          centred at \<open>(x, y)\<close>\<close>

text \<open>
  The figure size is a pair of Python floats, which the program only hands to
  \<^verbatim>\<open>plt.subplots\<close>: a float is a number or is not finite (the command line takes
  \<^verbatim>\<open>inf\<close> and \<^verbatim>\<open>nan\<close> as well).
\<close>

datatype pyfloat = Finite rat | PosInf | NegInf | NaN

text \<open>The parameters of \<^verbatim>\<open>build_diagram\<close>.\<close>

record config =
  cfg_width :: pyfloat
  cfg_height :: pyfloat
  cfg_title_font :: int
  cfg_label_font :: int
  cfg_wrap :: int
  cfg_output :: pystr

text \<open>
  What a run changes: the axes, the iterator \<^verbatim>\<open>ys\<close> (the values it has still to
  yield; none before \<^verbatim>\<open>ys = iter([...])\<close> is reached), the files that
  \<^verbatim>\<open>fig.savefig\<close> has written (path and picture) and the lines printed.
\<close>

record world =
  canvas :: "draw_op list"
  ys :: "rat list"
  files :: "(pystr \<times> draw_op list) list"
  stdout :: "pystr list"

text \<open>
  A statement leaves the world it reached and the exception it raised, if it raised
  one.
\<close>

type_synonym outcome = "error option \<times> world"

text \<open>
  What the run takes from outside the program: the Unicode tables of the interpreter,
  the figure sizes that \<^verbatim>\<open>plt.subplots\<close> rejects, the runs in which \<^verbatim>\<open>fig.savefig\<close>
  raises (by the parameters of the build, the output path among them, and by the
  picture), and the lines that \<^verbatim>\<open>print\<close> cannot write to the standard output. A
  \<^verbatim>\<open>savefig\<close> that raises is taken to have written no file.
\<close>

record env =
  tables :: unicode
  subplots_raises :: "pyfloat \<Rightarrow> pyfloat \<Rightarrow> bool"
  savefig_raises :: "config \<Rightarrow> draw_op list \<Rightarrow> bool"
  print_raises :: "pystr \<Rightarrow> bool"

text \<open>Before the run: no figure, nothing written, nothing printed.\<close>

definition fresh :: world where
  "fresh = \<lparr>canvas = [], ys = [], files = [], stdout = []\<rparr>"

definition draw :: "draw_op \<Rightarrow> world \<Rightarrow> world" where
  "draw d w = w\<lparr>canvas := canvas w @ [d]\<rparr>"

definition x_client :: rat where "x_client = 0.10"
definition x_edge :: rat where "x_edge = 0.37"
definition x_worker :: rat where "x_worker = 0.65"
definition x_os :: rat where "x_os = 0.90"

definition lanes :: "(rat \<times> pystr) list" where
  "lanes =
     [(x_client, py ''Frontend''),
      (x_edge, py ''Cloudflare Edge''),
      (x_worker, py ''Worker (Edge)''),
      (x_os, py ''OS Places API'')]"

text \<open>\<^verbatim>\<open>for x, label in lanes: ax.plot(...); ax.text(...)\<close>\<close>

fun draw_lanes :: "config \<Rightarrow> (rat \<times> pystr) list \<Rightarrow> world \<Rightarrow> world" where
  "draw_lanes cfg [] w = w"
| "draw_lanes cfg ((x, label) # ls) w =
     draw_lanes cfg ls (draw (Title x label (cfg_title_font cfg)) (draw (Plot x) w))"

text \<open>\<^verbatim>\<open>box_text(x, y, text)\<close>: nothing is drawn when \<^verbatim>\<open>fill\<close> raises.\<close>

definition box_text :: "env \<Rightarrow> config \<Rightarrow> rat \<Rightarrow> rat \<Rightarrow> pystr \<Rightarrow> world \<Rightarrow> outcome" where
  "box_text env cfg x y text w =
     (case fill (tables env) (cfg_wrap cfg) text of
        Inl e \<Rightarrow> (Some e, w)
      | Inr tx \<Rightarrow> (None, draw (BoxText x y tx (cfg_label_font cfg)) w))"

text \<open>\<^verbatim>\<open>arrow(x0, x1, y, text)\<close>\<close>

definition arrow ::
  "env \<Rightarrow> config \<Rightarrow> rat \<Rightarrow> rat \<Rightarrow> rat \<Rightarrow> pystr \<Rightarrow> world \<Rightarrow> outcome" where
  "arrow env cfg x0 x1 y text w =
     box_text env cfg ((x0 + x1) / 2) (y - 0.006) text (draw (Annotate (x1, y) (x0, y)) w)"

text \<open>The literal list under \<^verbatim>\<open>ys = iter([...])\<close>.\<close>

definition ys_values :: "rat list" where
  "ys_values =
     [0.96, 0.93, 0.90, 0.87, 0.84,
      0.80, 0.76, 0.72, 0.68, 0.64,
      0.60, 0.56, 0.52, 0.48, 0.44,
      0.40, 0.36, 0.32, 0.28, 0.24,
      0.20, 0.16, 0.12, 0.08]"

text \<open>\<^verbatim>\<open>next(ys)\<close> on what the iterator has left.\<close>

fun next_y :: "rat list \<Rightarrow> error + rat \<times> rat list" where
  "next_y [] = Inl StopIteration"
| "next_y (y # rest) = Inr (y, rest)"

text \<open>
  The statements under \<^verbatim>\<open># Sequence steps\<close> have two shapes,
  \<^verbatim>\<open>y = next(ys); arrow(x0, x1, y, text)\<close> and \<^verbatim>\<open>y = next(ys); box_text(x, y, text)\<close>.
\<close>

datatype step = ArrowStep rat rat pystr | BoxStep rat pystr

fun exec_step :: "env \<Rightarrow> config \<Rightarrow> step \<Rightarrow> world \<Rightarrow> outcome" where
  "exec_step env cfg (ArrowStep x0 x1 text) w =
     (case next_y (ys w) of
        Inl e \<Rightarrow> (Some e, w)
      | Inr (y, rest) \<Rightarrow> arrow env cfg x0 x1 y text (w\<lparr>ys := rest\<rparr>))"
| "exec_step env cfg (BoxStep x text) w =
     (case next_y (ys w) of
        Inl e \<Rightarrow> (Some e, w)
      | Inr (y, rest) \<Rightarrow> box_text env cfg x y text (w\<lparr>ys := rest\<rparr>))"

text \<open>Statements in sequence: the first exception ends the run.\<close>

fun exec_steps :: "env \<Rightarrow> config \<Rightarrow> step list \<Rightarrow> world \<Rightarrow> outcome" where
  "exec_steps env cfg [] w = (None, w)"
| "exec_steps env cfg (s # ss) w =
     (case exec_step env cfg s w of
        (Some e, w') \<Rightarrow> (Some e, w')
      | (None, w') \<Rightarrow> exec_steps env cfg ss w')"

text \<open>The 23 statements of the source, lines 73 to 109.\<close>

definition sequence_steps :: "step list" where
  "sequence_steps =
     [ArrowStep x_client x_edge
        (py ''GET /api/address-lookup?pc=CB97XU&dataset=LPI&maxresults=100''),
      BoxStep x_edge
        (py ''WAF / Bot evaluation\<newline>Skip via custom rule when CF-Access headers present''),
      ArrowStep x_edge x_client
        (py ''If blocked '' @ 8594 # py '' 403 Cloudflare challenge page''),
      BoxStep x_edge
        (py ''Access policy: Action = Service Auth\<newline>Validate CF-Access-Client-Id/Secret (service token)''),
      ArrowStep x_edge x_client
        (py ''If missing/invalid '' @ 8594 # py '' 302 to /cdn-cgi/access/login''),
      ArrowStep x_edge x_worker
        (py ''Service Auth OK '' @ 8594 # py '' Route match /api/address-lookup/* (invoke Worker)''),
      ArrowStep x_client x_worker
        (py ''OPTIONS preflight (CORS) '' @ 8594 # py '' 204 No Content''),
      BoxStep x_worker
        (py ''Validate OS_PLACES_KEY '' @ 8226 # py '' Parse + normalise postcode '' @ 8226
           # py '' Strict regex validation''),
      BoxStep x_worker
        (py ''Build cache key (pc/dataset/max + allow-list hash)\<newline>Canonicalise path with trailing ''
           @ 39 # py ''/'' @ [39]),
      ArrowStep x_worker x_edge (py ''Edge cache lookup (caches.default.match)''),
      ArrowStep x_edge x_client
        (py ''If HIT '' @ 8594
           # py '' 200 JSON (filtered)\<newline>Headers: x-edge-cache: HIT, x-allowlist-hash, server-timing''),
      BoxStep x_worker
        (py ''MISS '' @ 8594
           # py '' Build OS URL\<newline>fq: LOGICAL_STATUS_CODE:1; LPI_LOGICAL_STATUS_CODE:1\<newline>postal=1 ''
           @ 8594 # py '' POSTAL_ADDRESS_CODE:(D L)''),
      ArrowStep x_worker x_os (py ''GET /search/places/v1/postcode''),
      ArrowStep x_os x_worker (py ''200 OK '' @ 8594 # py '' Full JSON payload''),
      BoxStep x_worker
        (py ''Filter allow-list (CLASSIFICATION_CODE)\<newline>Project to Slim (LPI/DPA) '' @ 8226
           # py '' Add LSB_PROPERTY_TYPE''),
      ArrowStep x_worker x_edge (py ''Store at edge (caches.default.put)''),
      ArrowStep x_edge x_client
        (py ''200 JSON (filtered, slim)\<newline>Headers: x-edge-cache: MISS; cache-control: s-maxage; server-timing''),
      ArrowStep x_os x_worker (py ''401/403 (auth error)''),
      ArrowStep x_worker x_edge (py ''Try STALE from edge cache''),
      ArrowStep x_edge x_client (py ''Serve STALE 200 or 502 os_auth_failed''),
      ArrowStep x_worker x_os (py ''Timeout/Other error on fetch''),
      ArrowStep x_worker x_edge (py ''Try STALE from edge cache''),
      ArrowStep x_edge x_client (py ''Serve STALE 200 or 504 os_timeout'')]"

text \<open>
  \<^verbatim>\<open>fig.savefig(output, bbox_inches="tight")\<close> then \<^verbatim>\<open>print(f"Saved: {output}")\<close>: when
  \<^verbatim>\<open>savefig\<close> raises, nothing is written or printed; when \<^verbatim>\<open>print\<close> raises, the file
  is there and the message is not.
\<close>

definition save_and_report :: "env \<Rightarrow> config \<Rightarrow> world \<Rightarrow> outcome" where
  "save_and_report env cfg w =
     (if savefig_raises env cfg (canvas w) then (Some SaveError, w)
      else if print_raises env (py ''Saved: '' @ cfg_output cfg)
      then (Some PrintError, w\<lparr>files := files w @ [(cfg_output cfg, canvas w)]\<rparr>)
      else (None, w\<lparr>files := files w @ [(cfg_output cfg, canvas w)],
                     stdout := stdout w @ [py ''Saved: '' @ cfg_output cfg]\<rparr>))"

text \<open>
  The world in which the statements start: the figure made and the lanes drawn, and
  \<^verbatim>\<open>ys\<close> an iterator over its values.
\<close>

definition start :: "config \<Rightarrow> rat list \<Rightarrow> world" where
  "start cfg slots = (draw_lanes cfg lanes fresh)\<lparr>ys := slots\<rparr>"

text \<open>
  The body of \<^verbatim>\<open>build_diagram\<close> over its two literal tables, the values of \<^verbatim>\<open>ys\<close> and
  the sequence of statements: \<^verbatim>\<open>plt.subplots\<close>, the lanes, \<^verbatim>\<open>ys\<close>, the statements,
  and the file and the message once they are through.
\<close>

definition build_with :: "env \<Rightarrow> rat list \<Rightarrow> step list \<Rightarrow> config \<Rightarrow> outcome" where
  "build_with env slots steps cfg =
     (if subplots_raises env (cfg_width cfg) (cfg_height cfg) then (Some FigureError, fresh)
      else (case exec_steps env cfg steps (start cfg slots) of
              (Some e, w) \<Rightarrow> (Some e, w)
            | (None, w) \<Rightarrow> save_and_report env cfg w))"

definition build_diagram :: "env \<Rightarrow> config \<Rightarrow> outcome" where
  "build_diagram env cfg = build_with env ys_values sequence_steps cfg"

text \<open>The defaults of the parameters of \<^verbatim>\<open>build_diagram\<close>.\<close>

definition default_config :: config where
  "default_config =
     \<lparr>cfg_width = Finite 40, cfg_height = Finite 28, cfg_title_font = 16, cfg_label_font = 12,
      cfg_wrap = 50, cfg_output = py ''postcode-flow.pdf''\<rparr>"

text \<open>
  An environment for the instances below: matplotlib and \<^verbatim>\<open>print\<close> raise nothing, and
  the tables hold no code point (the instances have none beyond U+00FF but the arrow U+2192 and
  the bullet U+2022 of the captions, which match neither \<^verbatim>\<open>\w\<close> nor \<^verbatim>\<open>\d\<close>).
\<close>

definition plain_env :: env where
  "plain_env =
     \<lparr>tables = \<lparr>uni_word = (\<lambda>c. False), uni_digit = (\<lambda>c. False)\<rparr>,
      subplots_raises = (\<lambda>width height. False),
      savefig_raises = (\<lambda>cfg picture. False),
      print_raises = (\<lambda>line. False)\<rparr>"

text \<open>\<open>n\<close> calls of \<^verbatim>\<open>next\<close>: the values yielded and what the iterator has left.\<close>

fun next_calls :: "nat \<Rightarrow> rat list \<Rightarrow> error + rat list \<times> rat list" where
  "next_calls 0 it = Inr ([], it)"
| "next_calls (Suc n) it =
     (case next_y it of
        Inl e \<Rightarrow> Inl e
      | Inr (y, rest) \<Rightarrow>
          (case next_calls n rest of
             Inl e \<Rightarrow> Inl e
           | Inr (got, it') \<Rightarrow> Inr (y # got, it')))"

section \<open>Notions the properties are stated with\<close>

text \<open>
  \<^verbatim>\<open>text.split()\<close>: the words of a text, separated by runs of \<^verbatim>\<open>str.isspace\<close>
  characters; \<open>cur\<close> is the word being read.
\<close>

fun split_ws :: "pystr \<Rightarrow> pystr \<Rightarrow> pystr list" where
  "split_ws cur [] = (if cur = [] then [] else [cur])"
| "split_ws cur (c # cs) =
     (if isspace c then (if cur = [] then split_ws [] cs else cur # split_ws [] cs)
      else split_ws (cur @ [c]) cs)"

text \<open>
  The whitespace-normalised text of the specification's round trip,
  \<^verbatim>\<open>' '.join(text.split())\<close>: the words in their order, one space between them.
\<close>

definition normalized :: "pystr \<Rightarrow> pystr" where
  "normalized text = join 32 (split_ws [] text)"

text \<open>A text without its whitespace: the characters that are not \<^verbatim>\<open>str.isspace\<close>.\<close>

definition visible :: "pystr \<Rightarrow> pystr" where
  "visible s = filter (\<lambda>c. \<not> isspace c) s"

text \<open>
  What \<^verbatim>\<open>fill\<close> returns for a caption when the width is positive (lemma \<open>fill_Inr\<close>).
\<close>

definition wrapped :: "env \<Rightarrow> config \<Rightarrow> pystr \<Rightarrow> pystr" where
  "wrapped env cfg text =
     join 10 (wrap_loop (nat (cfg_wrap cfg)) [] (split_chunks (tables env) text))"

text \<open>
  What a statement draws at the height \<open>y\<close> when its caption is wrapped (lemma
  \<open>exec_step_ok\<close>).
\<close>

fun step_ops :: "env \<Rightarrow> config \<Rightarrow> step \<Rightarrow> rat \<Rightarrow> draw_op list" where
  "step_ops env cfg (ArrowStep x0 x1 text) y =
     [Annotate (x1, y) (x0, y),
      BoxText ((x0 + x1) / 2) (y - 0.006) (wrapped env cfg text) (cfg_label_font cfg)]"
| "step_ops env cfg (BoxStep x text) y =
     [BoxText x y (wrapped env cfg text) (cfg_label_font cfg)]"

text \<open>
  The height an operation is drawn at: the \<open>y\<close> of an arrow and of the centre of a
  caption box (and the upper end of a lane's line, the anchor of its title).
\<close>

fun op_y :: "draw_op \<Rightarrow> rat" where
  "op_y (Plot x) = 0.98"
| "op_y (Title x label f) = 0.99"
| "op_y (Annotate xy xytext) = snd xy"
| "op_y (BoxText x y tx f) = y"

text \<open>
  The height each statement was given, read off the canvas: an arrow is an
  \<open>Annotate\<close> followed by the box of its caption, a box statement a \<open>BoxText\<close> alone.
\<close>

fun anchors :: "draw_op list \<Rightarrow> rat list" where
  "anchors (Annotate xy xytext # BoxText x y tx f # ops) = snd xy # anchors ops"
| "anchors (BoxText x y tx f # ops) = y # anchors ops"
| "anchors (d # ops) = anchors ops"
| "anchors [] = []"

text \<open>What the loop over \<open>lanes\<close> draws (lemma \<open>draw_lanes_canvas\<close>).\<close>

definition lane_ops :: "config \<Rightarrow> draw_op list" where
  "lane_ops cfg = concat (map (\<lambda>(x, label). [Plot x, Title x label (cfg_title_font cfg)]) lanes)"

text \<open>The words of a text, \<^verbatim>\<open>text.split()\<close>.\<close>

abbreviation (input) words :: "pystr \<Rightarrow> pystr list" where
  "words s \<equiv> split_ws [] s"

text \<open>
  A caption whose whitespace characters are all among the six of the wrapper: none of
  the other characters of \<^verbatim>\<open>str.isspace\<close> (the no-break space among them), which the
  wrapper takes for parts of words.
\<close>

definition ascii_spaces :: "pystr \<Rightarrow> bool" where
  "ascii_spaces s = list_all (\<lambda>c. ws_char c \<or> \<not> isspace c) s"

text \<open>
  The words the wrapper may break at the width \<open>w\<close>: those longer than \<open>w\<close> and
  those with a hyphen.
\<close>

definition breakable :: "nat \<Rightarrow> pystr \<Rightarrow> bool" where
  "breakable w u = (w < length u \<or> 45 \<in> set u)"

text \<open>A break between the parts \<open>a\<close> and \<open>b\<close> of a word that is next to a hyphen.\<close>

definition at_hyphen :: "pystr \<Rightarrow> pystr \<Rightarrow> bool" where
  "at_hyphen a b = (last a = 45 \<or> hd b = 45)"

text \<open>
  The words \<open>vs\<close> are the words \<open>us\<close> in their order, each whole or in pieces that
  together are the word, and a word that is not longer than \<open>w\<close> is broken only next
  to a hyphen. \<open>strip_pieces free u vs\<close> takes the pieces of \<open>u\<close> off the front of \<open>vs\<close>;
  unless \<open>free\<close>, a piece that is not the rest of the word must end in a hyphen or
  be followed by one.
\<close>

fun strip_pieces :: "bool \<Rightarrow> pystr \<Rightarrow> pystr list \<Rightarrow> pystr list option" where
  "strip_pieces free [] vs = Some vs"
| "strip_pieces free u [] = None"
| "strip_pieces free u (v # vs) =
     (if v \<noteq> [] \<and> take (length v) u = v
        \<and> (free \<or> v = u \<or> at_hyphen v (drop (length v) u))
      then strip_pieces free (drop (length v) u) vs else None)"

fun pieces :: "nat \<Rightarrow> pystr list \<Rightarrow> pystr list \<Rightarrow> bool" where
  "pieces w [] vs = (vs = [])"
| "pieces w (u # us) vs =
     (case strip_pieces (w < length u) u vs of
        None \<Rightarrow> False
      | Some rest \<Rightarrow> pieces w us rest)"

subsection \<open>Notions of the proofs\<close>

text \<open>
  A word and the pieces it is found in: adjacent pieces meet at a hyphen, unless the
  word is longer than \<open>w\<close>.
\<close>

fun joined :: "pystr list \<Rightarrow> bool" where
  "joined (p # q # ps) = (at_hyphen p q \<and> joined (q # ps))"
| "joined ps = True"

definition piece_ok :: "nat \<Rightarrow> pystr \<Rightarrow> pystr list \<Rightarrow> bool" where
  "piece_ok w u ps =
     (concat ps = u \<and> ps \<noteq> [] \<and> [] \<notin> set ps \<and> (w < length u \<or> joined ps))"

text \<open>Where a line may end inside a word, between its parts \<open>a\<close> and \<open>b\<close>.\<close>

definition may_break :: "nat \<Rightarrow> pystr \<Rightarrow> pystr \<Rightarrow> bool" where
  "may_break w a b = (w < length a + length b \<or> at_hyphen a b)"

definition parts :: "nat \<Rightarrow> pystr list \<Rightarrow> pystr list \<Rightarrow> bool" where
  "parts w us vs = (\<exists>pss. list_all2 (piece_ok w) us pss \<and> vs = concat pss)"

text \<open>
  Reading a text from the left: the words that are finished, and the word that is
  still open at its end.
\<close>

fun pending :: "pystr \<Rightarrow> pystr \<Rightarrow> pystr" where
  "pending cur [] = cur"
| "pending cur (c # cs) = (if isspace c then pending [] cs else pending (cur @ [c]) cs)"

fun finished :: "pystr \<Rightarrow> pystr \<Rightarrow> pystr list" where
  "finished cur [] = []"
| "finished cur (c # cs) =
     (if isspace c then (if cur = [] then finished [] cs else cur # finished [] cs)
      else finished (cur @ [c]) cs)"

text \<open>
  Chunks: a chunk is whitespace or has none, and where two chunks without whitespace
  meet there is a hyphen.
\<close>

definition gap :: "pystr \<Rightarrow> bool" where
  "gap c = (c \<noteq> [] \<and> list_all isspace c)"

definition solid :: "pystr \<Rightarrow> bool" where
  "solid c = (c \<noteq> [] \<and> list_all (\<lambda>x. \<not> isspace x) c)"

fun chunks_ok :: "pystr list \<Rightarrow> bool" where
  "chunks_ok [] = True"
| "chunks_ok [c] = (gap c \<or> solid c)"
| "chunks_ok (c # d # cs) =
     ((gap c \<or> solid c) \<and> (solid c \<and> solid d \<longrightarrow> last c = 45 \<or> hd d = 45)
      \<and> chunks_ok (d # cs))"

text \<open>A text whose only whitespace character is the space.\<close>

definition tidy :: "pystr \<Rightarrow> bool" where
  "tidy s = list_all (\<lambda>c. c = 32 \<or> \<not> isspace c) s"

text \<open>The world in which \<^verbatim>\<open>fig.savefig\<close> is reached, every statement drawn.\<close>

definition drawn :: "env \<Rightarrow> rat list \<Rightarrow> step list \<Rightarrow> config \<Rightarrow> world" where
  "drawn env slots steps cfg =
     \<lparr>canvas = lane_ops cfg @ concat (map2 (step_ops env cfg) steps slots),
      ys = drop (length steps) slots, files = [], stdout = []\<rparr>"

section \<open>The vertical positions\<close>

lemma ys_values_length: "length ys_values = 24"
  by (simp add: ys_values_def)

lemma ys_values_sorted: "sorted_wrt (>) ys_values"
  by (simp add: ys_values_def)

lemma ys_values_seq:
  "ys_values =
     map (\<lambda>i. 0.96 - 0.03 * of_nat i) [0..<5] @ map (\<lambda>i. 0.80 - 0.04 * of_nat i) [0..<19]"
  by (simp add: ys_values_def upt_rec)

lemma next_calls_all: "next_calls (length it) it = Inr (it, [])"
  by (induction it) auto

lemma next_calls_more: "length it < n \<Longrightarrow> next_calls n it = Inl StopIteration"
  by (induction it arbitrary: n) (auto simp: Suc_less_eq2 gr0_conv_Suc)

text \<open>
  C1, as the specification states it, fails: the values of \<^verbatim>\<open>ys\<close> are not evenly
  spaced (the first gap is 0.03, the gap after the fifth value is 0.04), and their
  number, 24, is not \<open>\<lfloor>(top - bottom) / step\<rfloor> + 1\<close> between the first value 0.96
  and the last value 0.08 for either gap (that gives 30 for 0.03 and 23 for 0.04).
\<close>

theorem ys_values_gaps_differ:
  "ys_values ! 0 - ys_values ! 1 \<noteq> ys_values ! 4 - ys_values ! 5
   \<and> length ys_values \<noteq> nat \<lfloor>(0.96 - 0.08) / (0.03 :: rat)\<rfloor> + 1
   \<and> length ys_values \<noteq> nat \<lfloor>(0.96 - 0.08) / (0.04 :: rat)\<rfloor> + 1"
proof -
  have "\<lfloor>(0.96 - 0.08) / (0.03 :: rat)\<rfloor> = 29" by code_simp
  moreover have "\<lfloor>(0.96 - 0.08) / (0.04 :: rat)\<rfloor> = 22" by code_simp
  moreover have "ys_values ! 0 - ys_values ! 1 \<noteq> ys_values ! 4 - ys_values ! 5"
    by (simp add: ys_values_def)
  ultimately show ?thesis by (simp add: ys_values_length)
qed

text \<open>
  C1, amended: the values of \<^verbatim>\<open>ys\<close> are a fixed list of 24, the same for every
  configuration, strictly decreasing from 0.96 to 0.08: five values 0.03 apart, then
  nineteen values 0.04 apart. 24 calls of \<^verbatim>\<open>next\<close> yield them in this order, and one
  more call raises \<^verbatim>\<open>StopIteration\<close> (the specification's \<open>SlotExhausted\<close>).
\<close>

theorem ys_values_fixed_slots:
  "ys_values =
     map (\<lambda>i. 0.96 - 0.03 * of_nat i) [0..<5] @ map (\<lambda>i. 0.80 - 0.04 * of_nat i) [0..<19]
   \<and> length ys_values = 24
   \<and> sorted_wrt (>) ys_values
   \<and> next_calls 24 ys_values = Inr (ys_values, [])
   \<and> next_calls 25 ys_values = Inl StopIteration"
proof -
  have "next_calls 24 ys_values = Inr (ys_values, [])"
    using next_calls_all [of ys_values] by (simp add: ys_values_length)
  moreover have "next_calls 25 ys_values = Inl StopIteration"
    by (rule next_calls_more) (simp add: ys_values_length)
  ultimately show ?thesis
    using ys_values_seq ys_values_length ys_values_sorted by blast
qed



declare wrap_line.simps [simp del]

section \<open>The caption wrapper: properties\<close>

subsection \<open>Line lengths\<close>

lemma fit_chunks_len:
  "fit_chunks w n cs = (l, r) \<Longrightarrow> n \<le> w \<Longrightarrow> n + length (concat l) \<le> w"
proof (induction cs arbitrary: n l r)
  case Nil
  then show ?case by simp
next
  case (Cons a cs)
  show ?case
  proof (cases "n + length a \<le> w")
    case True
    obtain l1 r1 where f: "fit_chunks w (n + length a) cs = (l1, r1)"
      by (cases "fit_chunks w (n + length a) cs")
    from Cons.IH [OF f True] Cons.prems True f show ?thesis by auto
  next
    case False
    with Cons.prems show ?thesis by auto
  qed
qed

lemma rfind_less: "rfind c xs = Some i \<Longrightarrow> i < length xs"
  by (induction xs arbitrary: i) (auto split: option.splits if_splits)

lemma long_word_end_le:
  assumes "1 \<le> w"
  shows "long_word_end w n c \<le> w - n"
proof -
  have "h + 1 \<le> w - n" if "rfind 45 (take (w - n) c) = Some h" for h
    using rfind_less [OF that] by simp
  with assms show ?thesis
    by (auto simp: long_word_end_def Let_def split: option.splits)
qed

lemma sum_list_length_concat: "sum_list (map length l) = length (concat l)"
  by (induction l) auto

lemma handle_long_word_len:
  assumes "1 \<le> w" and "length (concat l) \<le> w" and "handle_long_word w l r = (l', r')"
  shows "length (concat l') \<le> w"
proof (cases r)
  case Nil
  with assms show ?thesis by simp
next
  case (Cons c cs)
  have "long_word_end w (length (concat l)) c \<le> w - length (concat l)"
    using assms(1) by (rule long_word_end_le)
  with assms Cons show ?thesis
    by (auto simp: Let_def sum_list_length_concat split: if_splits)
qed

lemma drop_trailing_len: "length (concat (drop_trailing l)) \<le> length (concat l)"
proof (cases "l = []")
  case True
  then show ?thesis by (simp add: drop_trailing_def)
next
  case False
  then have "l = butlast l @ [last l]" by simp
  then have "concat l = concat (butlast l) @ last l" by (metis concat.simps concat_append append_Nil2)
  then show ?thesis by (simp add: drop_trailing_def)
qed

lemma wrap_line_len:
  assumes "1 \<le> w" and "wrap_line w s cs = (l, r)"
  shows "length (concat l) \<le> w"
proof (cases cs)
  case Nil
  with assms show ?thesis by (simp add: wrap_line.simps)
next
  case (Cons c cs')
  define cs1 where "cs1 = (if blank c \<and> s then cs' else c # cs')"
  obtain l1 r1 where f: "fit_chunks w 0 cs1 = (l1, r1)"
    by (cases "fit_chunks w 0 cs1")
  obtain l2 r2 where h: "handle_long_word w l1 r1 = (l2, r2)"
    by (cases "handle_long_word w l1 r1")
  from assms Cons f h have l: "l = drop_trailing l2" by (simp add: cs1_def wrap_line.simps)
  from fit_chunks_len [OF f] have "length (concat l1) \<le> w" by simp
  from handle_long_word_len [OF assms(1) this h] have "length (concat l2) \<le> w" .
  with drop_trailing_len [of l2] l show ?thesis by simp
qed

lemma wrap_loop_len:
  "1 \<le> w \<Longrightarrow> \<forall>l\<in>set lines. length l \<le> w \<Longrightarrow> \<forall>l\<in>set (wrap_loop w lines cs). length l \<le> w"
proof (induction w lines cs rule: wrap_loop.induct)
  case (1 width lines)
  then show ?case by simp
next
  case (2 width lines c cs)
  obtain cur_line rest where wl: "wrap_line width (lines \<noteq> []) (c # cs) = (cur_line, rest)"
    by (cases "wrap_line width (lines \<noteq> []) (c # cs)")
  from wrap_line_len [OF "2.prems"(1) wl] have len: "length (concat cur_line) \<le> width" .
  have "\<forall>l\<in>set (if cur_line \<noteq> [] then lines @ [concat cur_line] else lines). length l \<le> width"
    using "2.prems"(2) len by auto
  from "2.IH" [OF wl [symmetric] "2.prems"(1) this] wl show ?case by simp
qed

subsection \<open>What the lines keep\<close>

lemma visible_append [simp]: "visible (a @ b) = visible a @ visible b"
  by (simp add: visible_def)

lemma visible_Nil [simp]: "visible [] = []"
  by (simp add: visible_def)

lemma visible_blank: "blank s \<Longrightarrow> visible s = []"
  by (induction s) (auto simp: blank_def visible_def)

lemma fit_chunks_concat: "fit_chunks w n cs = (l, r) \<Longrightarrow> l @ r = cs"
proof (induction cs arbitrary: n l r)
  case Nil
  then show ?case by simp
next
  case (Cons a cs)
  show ?case
  proof (cases "n + length a \<le> w")
    case True
    obtain l1 r1 where f: "fit_chunks w (n + length a) cs = (l1, r1)"
      by (cases "fit_chunks w (n + length a) cs")
    from Cons.IH [OF f] Cons.prems True f show ?thesis by auto
  next
    case False
    with Cons.prems show ?thesis by auto
  qed
qed

lemma handle_long_word_concat:
  "handle_long_word w l r = (l', r') \<Longrightarrow> concat l' @ concat r' = concat l @ concat r"
  by (cases r) (auto simp: Let_def split: if_splits)

lemma drop_trailing_visible: "visible (concat (drop_trailing l)) = visible (concat l)"
proof (cases "l \<noteq> [] \<and> blank (last l)")
  case True
  then have "l = butlast l @ [last l]" by simp
  then have "concat l = concat (butlast l) @ last l"
    by (metis concat.simps concat_append append_Nil2)
  with True show ?thesis by (simp add: drop_trailing_def visible_blank)
next
  case False
  then show ?thesis by (auto simp: drop_trailing_def)
qed

lemma wrap_line_visible:
  assumes "wrap_line w s cs = (l, r)"
  shows "visible (concat l) @ visible (concat r) = visible (concat cs)"
proof (cases cs)
  case Nil
  with assms show ?thesis by (simp add: wrap_line.simps)
next
  case (Cons c cs')
  define cs1 where "cs1 = (if blank c \<and> s then cs' else c # cs')"
  obtain l1 r1 where f: "fit_chunks w 0 cs1 = (l1, r1)"
    by (cases "fit_chunks w 0 cs1")
  obtain l2 r2 where h: "handle_long_word w l1 r1 = (l2, r2)"
    by (cases "handle_long_word w l1 r1")
  from assms Cons f h have l: "l = drop_trailing l2" "r = r2"
    by (simp_all add: cs1_def wrap_line.simps)
  have "visible (concat cs1) = visible (concat cs)"
    by (simp add: cs1_def Cons visible_blank)
  moreover have "concat l2 @ concat r2 = concat cs1"
    using handle_long_word_concat [OF h] fit_chunks_concat [OF f] by (metis concat_append)
  then have "visible (concat l2) @ visible (concat r2) = visible (concat cs1)"
    by (metis visible_append)
  ultimately show ?thesis by (simp add: l drop_trailing_visible)
qed

lemma wrap_loop_visible:
  "visible (concat (wrap_loop w lines cs)) = visible (concat lines) @ visible (concat cs)"
proof (induction w lines cs rule: wrap_loop.induct)
  case (1 width lines)
  then show ?case by simp
next
  case (2 width lines c cs)
  obtain cur_line rest where wl: "wrap_line width (lines \<noteq> []) (c # cs) = (cur_line, rest)"
    by (cases "wrap_line width (lines \<noteq> []) (c # cs)")
  let ?lines = "if cur_line \<noteq> [] then lines @ [concat cur_line] else lines"
  have "visible (concat ?lines) = visible (concat lines) @ visible (concat cur_line)"
    by simp
  moreover have "wrap_loop width lines (c # cs) = wrap_loop width ?lines rest"
    by (simp add: wl)
  ultimately show ?case
    using "2.IH" [OF wl [symmetric]] wrap_line_visible [OF wl] by (simp only: append_assoc)
qed

lemma split_from_concat: "concat (split_from U b t) = t"
  by (induction U b t rule: split_from.induct) simp_all

lemma ws_char_isspace: "ws_char c \<Longrightarrow> isspace c"
  by (auto simp: ws_char_def isspace_def)

lemma visible_expandtabs: "visible (expandtabs j t) = visible t"
  by (induction j t rule: expandtabs.induct) (auto simp: visible_def isspace_def)

lemma visible_munge: "visible (munge_whitespace t) = visible t"
proof -
  have "visible (map (\<lambda>c. if ws_char c then 32 else c) s) = visible s" for s
    by (induction s) (auto simp: visible_def dest: ws_char_isspace, auto simp: isspace_def)
  then show ?thesis by (simp add: munge_whitespace_def visible_expandtabs)
qed

subsection \<open>The characters of the lines\<close>

lemma wrap_line_set:
  assumes "wrap_line w s cs = (l, r)"
  shows "set (concat l) \<union> set (concat r) \<subseteq> set (concat cs)"
proof (cases cs)
  case Nil
  with assms show ?thesis by (simp add: wrap_line.simps)
next
  case (Cons c cs')
  define cs1 where "cs1 = (if blank c \<and> s then cs' else c # cs')"
  obtain l1 r1 where f: "fit_chunks w 0 cs1 = (l1, r1)"
    by (cases "fit_chunks w 0 cs1")
  obtain l2 r2 where h: "handle_long_word w l1 r1 = (l2, r2)"
    by (cases "handle_long_word w l1 r1")
  from assms Cons f h have l: "l = drop_trailing l2" "r = r2"
    by (simp_all add: cs1_def wrap_line.simps)
  have "set (concat cs1) \<subseteq> set (concat cs)"
    by (auto simp: cs1_def Cons)
  moreover have "concat l2 @ concat r2 = concat cs1"
    using handle_long_word_concat [OF h] fit_chunks_concat [OF f] by (metis concat_append)
  then have "set (concat l2) \<union> set (concat r2) = set (concat cs1)"
    by (metis set_append)
  moreover have "set (concat (drop_trailing l2)) \<subseteq> set (concat l2)"
    by (auto simp: drop_trailing_def dest: in_set_butlastD)
  ultimately show ?thesis using l by blast
qed

lemma wrap_loop_set:
  "set (concat (wrap_loop w lines cs)) \<subseteq> set (concat lines) \<union> set (concat cs)"
proof (induction w lines cs rule: wrap_loop.induct)
  case (1 width lines)
  then show ?case by simp
next
  case (2 width lines c cs)
  obtain cur_line rest where wl: "wrap_line width (lines \<noteq> []) (c # cs) = (cur_line, rest)"
    by (cases "wrap_line width (lines \<noteq> []) (c # cs)")
  define lines' where "lines' = (if cur_line \<noteq> [] then lines @ [concat cur_line] else lines)"
  have "wrap_loop width lines (c # cs) = wrap_loop width lines' rest"
    by (simp add: wl lines'_def)
  then have "set (concat (wrap_loop width lines (c # cs)))
      \<subseteq> set (concat lines') \<union> set (concat rest)"
    using "2.IH" [OF wl [symmetric]] by (simp add: lines'_def)
  also have "set (concat lines') \<subseteq> set (concat lines) \<union> set (concat cur_line)"
    by (auto simp: lines'_def)
  then have "set (concat lines') \<union> set (concat rest)
      \<subseteq> set (concat lines) \<union> (set (concat cur_line) \<union> set (concat rest))"
    by blast
  also have "\<dots> \<subseteq> set (concat lines) \<union> set (concat (c # cs))"
    using wrap_line_set [OF wl] by blast
  finally show ?case .
qed

lemma munge_whitespace_chars: "c \<in> set (munge_whitespace t) \<Longrightarrow> ws_char c \<Longrightarrow> c = 32"
  by (auto simp: munge_whitespace_def)

lemma wrap_chars:
  assumes "wrap U w t = Inr ls" and "l \<in> set ls" and "c \<in> set l"
  shows "c \<in> set (munge_whitespace t)"
proof -
  from assms(1) have ls: "ls = wrap_loop (nat w) [] (split_chunks U t)"
    by (auto simp: wrap_def wrap_chunks_def split: if_splits)
  from assms(2,3) have "c \<in> set (concat ls)" by auto
  with wrap_loop_set [of "nat w" "[]" "split_chunks U t"] ls
  have "c \<in> set (concat (split_chunks U t))" by auto
  then show ?thesis by (simp add: split_chunks_def split_from_concat)
qed

lemma expandtabs_no_tab: "9 \<notin> set t \<Longrightarrow> expandtabs j t = t"
  by (induction j t rule: expandtabs.induct) auto

lemma munge_no_tab:
  "9 \<notin> set t \<Longrightarrow> munge_whitespace t = map (\<lambda>c. if ws_char c then 32 else c) t"
  by (simp add: munge_whitespace_def expandtabs_no_tab)

lemma munge_newlines:
  assumes "9 \<notin> set t"
  shows "munge_whitespace (map (\<lambda>c. if c = 10 then 32 else c) t) = munge_whitespace t"
proof -
  have "9 \<notin> set (map (\<lambda>c. if c = 10 then 32 else c) t)" using assms by auto
  then show ?thesis using assms by (simp add: munge_no_tab ws_char_def)
qed

lemma visible_join: "visible (join 32 ls) = visible (concat ls)"
  by (induction "32 :: nat" ls rule: join.induct) (auto simp: visible_def isspace_def)

lemma fill_Inr:
  "0 < w \<Longrightarrow> fill U w t = Inr (join 10 (wrap_loop (nat w) [] (split_chunks U t)))"
  by (simp add: fill_def wrap_def wrap_chunks_def)

lemma fill_Inl: "w \<le> 0 \<Longrightarrow> fill U w t = Inl ValueError"
  by (simp add: fill_def wrap_def wrap_chunks_def)

subsection \<open>Evaluation\<close>

lemma replicate_numeral: "replicate (numeral k) x = x # replicate (pred_numeral k) x"
  by (simp add: numeral_eq_Suc)

lemmas wrap_eval =
  wrap_def wrap_chunks_def split_chunks_def munge_whitespace_def py_def ws_char_def isspace_def
  re_word_def re_digit_def letter_def word_punct_def emdash_ahead_def chunk_more_def blank_def
  long_word_end_def drop_trailing_def wrap_line.simps Let_def replicate_numeral

text \<open>
  Beyond U+00FF the tables decide. With the Greek letters in \<^verbatim>\<open>\w\<close>, as the interpreter
  has them, a word of Greek letters is broken after its hyphen; with tables that hold
  no code point it is not.
\<close>

lemma wrap_beyond_latin1:
  "wrap \<lparr>uni_word = (\<lambda>c. 945 \<le> c \<and> c \<le> 969), uni_digit = (\<lambda>c. False)\<rparr> 7
      (py ''xx '' @ [945, 946, 947, 45, 948, 949, 950])
     = Inr [py ''xx '' @ [945, 946, 947, 45], [948, 949, 950]]
   \<and> wrap (tables plain_env) 7 (py ''xx '' @ [945, 946, 947, 45, 948, 949, 950])
     = Inr [py ''xx'', [945, 946, 947, 45, 948, 949, 950]]"
  by (simp add: wrap_eval plain_env_def)

subsection \<open>Words and their pieces\<close>

text \<open>
  The relation on instances: pieces next to a hyphen and the pieces of a word longer
  than the width are accepted; a break elsewhere in a word that fits, a word that is
  cut short, two words in one and a word that is missing are not.
\<close>

lemma pieces_examples:
  "pieces 5 [py ''x'', py ''ab-cd'', py ''yz''] [py ''x'', py ''ab-'', py ''cd'', py ''yz'']"
  "pieces 4 [py ''a--b''] [py ''a'', py ''--b'']"
  "pieces 3 [py ''abcdef''] [py ''abc'', py ''def'']"
  "\<not> pieces 5 [py ''x'', py ''ab-cd''] [py ''x'', py ''a'', py ''b-cd'']"
  "\<not> pieces 5 [py ''abc''] [py ''a'', py ''bc'']"
  "\<not> pieces 3 [py ''abcdef''] [py ''abc'']"
  "\<not> pieces 3 [py ''abcdef''] [py ''abc'', py ''de'']"
  "\<not> pieces 5 [py ''ab'', py ''cd''] [py ''abcd'']"
  "\<not> pieces 5 [py ''ab'', py ''cd''] [py ''ab'']"
  "\<not> pieces 5 [py ''ab''] []"
  by (simp_all add: py_def at_hyphen_def)


lemma strip_pieces_concat:
  "[] \<notin> set ps \<Longrightarrow> free \<or> joined ps \<Longrightarrow>
     strip_pieces free (concat ps) (ps @ vs) = Some vs"
proof (induction ps)
  case Nil
  then show ?case by simp
next
  case (Cons p ps)
  then obtain a p' where p: "p = a # p'" by (cases p) auto
  have j: "free \<or> joined ps" using Cons.prems(2) by (cases ps) auto
  have "free \<or> p = p @ concat ps \<or> at_hyphen p (concat ps)"
  proof (cases ps)
    case Nil
    then show ?thesis by simp
  next
    case (Cons q qs)
    with Cons.prems(1) have "q \<noteq> []" by auto
    then have "hd (concat ps) = hd q" by (simp add: Cons)
    with Cons.prems(2) Cons show ?thesis by (auto simp: at_hyphen_def)
  qed
  then have "strip_pieces free (p @ concat ps) (p # ps @ vs)
      = strip_pieces free (concat ps) (ps @ vs)"
    by (simp add: p)
  with Cons.IH [OF _ j] Cons.prems(1) show ?case by simp
qed

lemma pieces_of_parts:
  "list_all2 (piece_ok w) us pss \<Longrightarrow> pieces w us (concat pss)"
proof (induction us pss rule: list_all2_induct)
  case Nil
  then show ?case by simp
next
  case (Cons u us ps pss)
  from Cons.hyps(1) have ok: "concat ps = u" "ps \<noteq> []" "[] \<notin> set ps"
      "w < length u \<or> joined ps"
    by (simp_all add: piece_ok_def)
  from strip_pieces_concat [OF ok(3,4), of "concat pss"] ok(1)
  have "strip_pieces (w < length u) u (ps @ concat pss) = Some (concat pss)" by simp
  then show ?case using Cons.IH by simp
qed

lemma parts_refl: "[] \<notin> set us \<Longrightarrow> parts w us us"
proof -
  assume "[] \<notin> set us"
  then have "list_all2 (piece_ok w) us (map (\<lambda>u. [u]) us)"
    by (induction us) (auto simp: piece_ok_def)
  moreover have "us = concat (map (\<lambda>u. [u]) us)" by (induction us) auto
  ultimately show ?thesis unfolding parts_def by blast
qed

lemma parts_append: "parts w us vs \<Longrightarrow> parts w us' vs' \<Longrightarrow> parts w (us @ us') (vs @ vs')"
  unfolding parts_def by (metis concat_append list_all2_appendI)

lemma parts_glue:
  assumes "parts w (b # us) vs" and "may_break w a b" and "a \<noteq> []"
  shows "parts w ((a @ b) # us) (a # vs)"
proof -
  from assms(1) obtain pss where p: "list_all2 (piece_ok w) (b # us) pss" "vs = concat pss"
    unfolding parts_def by blast
  then obtain ps pss' where pss: "pss = ps # pss'" "piece_ok w b ps" "list_all2 (piece_ok w) us pss'"
    by (auto simp: list_all2_Cons1)
  from pss(2) obtain q qs where q: "ps = q # qs" "q \<noteq> []" "concat ps = b"
    by (cases ps) (auto simp: piece_ok_def)
  then have hd: "hd b = hd q" by auto
  have "w < length (a @ b) \<or> joined (a # ps)"
  proof (cases "w < length a + length b")
    case True
    then show ?thesis by simp
  next
    case False
    with assms(2) have "at_hyphen a b" by (simp add: may_break_def)
    with hd have "at_hyphen a q" by (simp add: at_hyphen_def)
    moreover from False pss(2) have "joined ps" by (auto simp: piece_ok_def)
    ultimately show ?thesis by (simp add: q(1))
  qed
  with pss(2) assms(3) have "piece_ok w (a @ b) (a # ps)"
    by (auto simp: piece_ok_def)
  with pss(3) have "list_all2 (piece_ok w) ((a @ b) # us) ((a # ps) # pss')" by simp
  moreover have "a # vs = concat ((a # ps) # pss')" by (simp add: p(2) pss(1))
  ultimately show ?thesis unfolding parts_def by blast
qed

lemma parts_pieces: "parts w us vs \<Longrightarrow> pieces w us vs"
  unfolding parts_def using pieces_of_parts by blast

lemma piece_ok_unbroken:
  assumes "piece_ok w u ps" and "\<not> breakable w u"
  shows "ps = [u]"
proof (cases ps)
  case Nil
  with assms(1) show ?thesis by (simp add: piece_ok_def)
next
  case (Cons p qs)
  show ?thesis
  proof (cases qs)
    case Nil
    with Cons assms(1) show ?thesis by (simp add: piece_ok_def)
  next
    case (Cons q rs)
    with \<open>ps = p # qs\<close> assms have c: "concat (p # q # rs) = u" "p \<noteq> []" "q \<noteq> []"
        "at_hyphen p q" "45 \<notin> set u"
      by (auto simp: piece_ok_def breakable_def)
    from c(2,3,4) have "45 \<in> set p \<or> 45 \<in> set q"
      by (metis at_hyphen_def last_in_set hd_in_set)
    with c(1,5) show ?thesis by auto
  qed
qed

lemma parts_unbroken:
  "parts w us vs \<Longrightarrow> \<forall>u\<in>set us. \<not> breakable w u \<Longrightarrow> vs = us"
proof -
  assume "parts w us vs" and nb: "\<forall>u\<in>set us. \<not> breakable w u"
  then obtain pss where p: "list_all2 (piece_ok w) us pss" "vs = concat pss"
    unfolding parts_def by blast
  from p(1) nb have "concat pss = us"
    by (induction us pss rule: list_all2_induct) (auto dest: piece_ok_unbroken)
  with p(2) show ?thesis by simp
qed

subsection \<open>The words of a text that is read in two parts\<close>

lemma split_ws_append:
  "split_ws cur (a @ b) = finished cur a @ split_ws (pending cur a) b"
  by (induction cur a rule: pending.induct) auto

lemma split_ws_finished:
  "split_ws cur a = finished cur a @ (if pending cur a = [] then [] else [pending cur a])"
  using split_ws_append [of cur a "[]"] by simp

lemma split_ws_open:
  "x \<noteq> [] \<Longrightarrow> \<exists>y ys. split_ws x s = (x @ y) # ys \<and> split_ws (o' @ x) s = (o' @ x @ y) # ys"
proof (induction x s rule: split_ws.induct)
  case (1 cur)
  then show ?case by simp
next
  case (2 cur c cs)
  show ?case
  proof (cases "isspace c")
    case True
    with 2 show ?thesis by auto
  next
    case False
    with 2 have "\<exists>y ys. split_ws (cur @ [c]) cs = ((cur @ [c]) @ y) # ys
        \<and> split_ws (o' @ cur @ [c]) cs = (o' @ (cur @ [c]) @ y) # ys"
      by simp
    then obtain y ys where "split_ws (cur @ [c]) cs = (cur @ c # y) # ys"
      "split_ws (o' @ cur @ [c]) cs = (o' @ cur @ c # y) # ys" by auto
    with False show ?thesis by auto
  qed
qed

lemma split_ws_nonempty: "[] \<notin> set (split_ws cur s)"
  by (induction cur s rule: split_ws.induct) auto

lemma finished_nonempty: "[] \<notin> set (finished cur s)"
  by (induction cur s rule: finished.induct) auto

lemma split_ws_solid_start:
  assumes "\<not> isspace c"
  shows "\<exists>y ys. words (c # s) = (c # y) # ys \<and> (\<forall>x. x \<noteq> [] \<longrightarrow> split_ws x (c # s) = (x @ c # y) # ys)"
proof -
  from split_ws_open [of "[c]" s] obtain y ys where
    a: "split_ws [c] s = ([c] @ y) # ys" by blast
  have "split_ws (x @ [c]) s = (x @ [c] @ y) # ys" for x
    using split_ws_open [of "[c]" s x] a by auto
  with a assms show ?thesis by auto
qed

lemma split_ws_space_start:
  "s = [] \<or> isspace (hd s) \<Longrightarrow>
     split_ws x s = (if x = [] then [] else [x]) @ words s"
  by (cases s) auto

lemma pending_empty:
  "pending cur s = [] \<longleftrightarrow> (if s = [] then cur = [] else isspace (last s))"
  by (induction cur s rule: pending.induct) auto

lemma pending_last:
  "s \<noteq> [] \<Longrightarrow> \<not> isspace (last s) \<Longrightarrow> last (pending cur s) = last s"
  by (induction cur s rule: pending.induct) (auto split: if_splits)

lemma pending_solid:
  "list_all (\<lambda>x. \<not> isspace x) p \<Longrightarrow> pending cur (a @ p) = pending cur a @ p"
proof (induction cur a rule: pending.induct)
  case (1 cur)
  then show ?case by (induction p arbitrary: cur) auto
next
  case (2 cur c cs)
  then show ?case by auto
qed

lemma split_ws_solid:
  "list_all (\<lambda>x. \<not> isspace x) q \<Longrightarrow> split_ws cur (q @ s) = split_ws (cur @ q) s"
  by (induction q arbitrary: cur) auto

lemma split_ws_blank:
  "list_all isspace p \<Longrightarrow> words (p @ s) = words s"
  by (induction p) auto

lemma words_two_parts:
  "words (L @ R) =
     (if R = [] \<or> isspace (hd R) \<or> pending [] L = [] then words L @ words R
      else finished [] L @ (pending [] L @ hd (words R)) # tl (words R))"
proof (cases "R = [] \<or> isspace (hd R)")
  case True
  then have "R = [] \<or> isspace (hd R) \<or> pending [] L = []" by blast
  then show ?thesis
    using split_ws_space_start [OF True, of "pending [] L"]
    by (simp only: if_True split_ws_append [of "[]" L R] split_ws_finished [of "[]" L]
        append_assoc)
next
  case False
  then obtain c R' where R: "R = c # R'" "\<not> isspace c" by (cases R) auto
  from split_ws_solid_start [OF R(2), of R'] obtain y ys where
    y: "words (c # R') = (c # y) # ys"
      "\<forall>x. x \<noteq> [] \<longrightarrow> split_ws x (c # R') = (x @ c # y) # ys" by blast
  show ?thesis
  proof (cases "pending [] L = []")
    case True
    then show ?thesis
      by (simp add: split_ws_append [of "[]" L R] split_ws_finished [of "[]" L])
  next
    case False
    with y R \<open>\<not> (R = [] \<or> isspace (hd R))\<close> show ?thesis
      by (simp add: split_ws_append [of "[]" L "c # R'"])
  qed
qed

lemma words_solid_start: "R \<noteq> [] \<Longrightarrow> \<not> isspace (hd R) \<Longrightarrow> \<exists>y ys. words R = (hd R # y) # ys"
  using split_ws_solid_start [of "hd R" "tl R"] by (cases R) auto

lemma text_parts:
  assumes X: "parts w (words R) X"
    and pre: "list_all isspace pre" and mid: "list_all isspace mid"
    and J: "mid \<noteq> [] \<or> R = [] \<or> isspace (hd R) \<or> pending [] L = []
        \<or> may_break w (pending [] L) (hd (words R))"
  shows "parts w (words (pre @ L @ mid @ R)) (words L @ X)"
proof -
  have whole: "parts w (words L) (words L)"
    by (rule parts_refl) (rule split_ws_nonempty)
  have 1: "words (pre @ L @ mid @ R) = words (L @ mid @ R)"
    using pre by (rule split_ws_blank)
  show ?thesis
  proof (cases "mid \<noteq> [] \<or> R = [] \<or> isspace (hd R) \<or> pending [] L = []")
    case True
    have "words (L @ mid @ R) = words L @ words R"
    proof (cases "mid = []")
      case True
      with \<open>mid \<noteq> [] \<or> R = [] \<or> isspace (hd R) \<or> pending [] L = []\<close>
      show ?thesis by (auto simp: words_two_parts [of L R])
    next
      case False
      with mid have "isspace (hd (mid @ R))" by (cases mid) auto
      then have "words (L @ mid @ R) = words L @ words (mid @ R)"
        by (simp add: words_two_parts [of L "mid @ R"])
      with mid show ?thesis by (simp add: split_ws_blank)
    qed
    with 1 parts_append [OF whole X] show ?thesis by simp
  next
    case False
    then have m: "mid = []" and R: "R \<noteq> []" "\<not> isspace (hd R)" and p: "pending [] L \<noteq> []"
      by auto
    from False J have br: "may_break w (pending [] L) (hd (words R))" by blast
    from words_solid_start [OF R] obtain b B where wR: "words R = b # B" by blast
    have wL: "words L = finished [] L @ [pending [] L]"
      using p by (simp add: split_ws_finished [of "[]" L])
    have "words (L @ R) = finished [] L @ (pending [] L @ b) # B"
      using R p wR by (simp add: words_two_parts [of L R])
    moreover have "parts w ((pending [] L @ b) # B) (pending [] L # X)"
      using X br p unfolding wR by (intro parts_glue) simp_all
    then have "parts w (finished [] L @ (pending [] L @ b) # B)
        (finished [] L @ pending [] L # X)"
      by (intro parts_append parts_refl finished_nonempty)
    ultimately show ?thesis using 1 m wL by simp
  qed
qed

lemma may_break_hyphen:
  assumes "L \<noteq> []" "\<not> isspace (last L)" "R \<noteq> []" "\<not> isspace (hd R)"
    and "last L = 45 \<or> hd R = 45"
  shows "may_break w (pending [] L) (hd (words R))"
proof -
  from pending_last [OF assms(1,2)] have a: "last (pending [] L) = last L" .
  from words_solid_start [OF assms(3,4)] have b: "hd (hd (words R)) = hd R" by auto
  from a b assms(5) show ?thesis by (simp add: may_break_def at_hyphen_def)
qed

lemma may_break_long:
  assumes "list_all (\<lambda>x. \<not> isspace x) p" "list_all (\<lambda>x. \<not> isspace x) q" "q \<noteq> []"
    and "w < length p + length q"
  shows "may_break w (pending [] (A @ p)) (hd (words (q @ B)))"
proof -
  have "pending [] (A @ p) = pending [] A @ p" using assms(1) by (rule pending_solid)
  moreover have "words (q @ B) = split_ws q B"
    using split_ws_solid [OF assms(2), of "[]" B] by simp
  moreover from split_ws_open [OF assms(3), of B "[]"] obtain y ys where
    "split_ws q B = (q @ y) # ys" by blast
  ultimately show ?thesis using assms(4) by (simp add: may_break_def)
qed

subsection \<open>Chunks\<close>

lemma chunks_ok_Cons:
  "chunks_ok (c # cs) \<longleftrightarrow>
     (gap c \<or> solid c) \<and> chunks_ok cs
     \<and> (cs \<noteq> [] \<longrightarrow> solid c \<and> solid (hd cs) \<longrightarrow> last c = 45 \<or> hd (hd cs) = 45)"
  by (cases cs) auto

lemma chunks_ok_append:
  "chunks_ok (xs @ zs) \<longleftrightarrow>
     chunks_ok xs \<and> chunks_ok zs
     \<and> (xs \<noteq> [] \<and> zs \<noteq> [] \<longrightarrow> solid (last xs) \<and> solid (hd zs) \<longrightarrow>
          last (last xs) = 45 \<or> hd (hd zs) = 45)"
proof (induction xs)
  case Nil
  then show ?case by simp
next
  case (Cons x xs)
  show ?case
  proof (cases "xs = []")
    case True
    then show ?thesis by (auto simp: chunks_ok_Cons [of x zs] chunks_ok_Cons [of x "[]"])
  next
    case False
    then have "hd (xs @ zs) = hd xs" by simp
    with Cons False show ?thesis
      by (simp add: chunks_ok_Cons [of x "xs @ zs"] chunks_ok_Cons [of x xs]) blast
  qed
qed

lemma chunks_ok_all: "chunks_ok cs \<Longrightarrow> c \<in> set cs \<Longrightarrow> gap c \<or> solid c"
  by (induction cs) (auto simp: chunks_ok_Cons)

lemma gap_not_solid: "gap c \<Longrightarrow> \<not> solid c"
  by (cases c) (auto simp: gap_def solid_def)

lemma chunks_ok_drop:
  assumes "chunks_ok (d # ds)" and "e < length d"
  shows "chunks_ok (drop e d # ds)"
proof -
  from assms(2) have ne: "drop e d \<noteq> []" by simp
  from assms(2) have l: "last (drop e d) = last d" by simp
  have g: "gap d \<Longrightarrow> gap (drop e d)"
    using ne by (auto simp: gap_def list_all_iff dest: in_set_dropD)
  have s: "solid d \<Longrightarrow> solid (drop e d)"
    using ne by (auto simp: solid_def list_all_iff dest: in_set_dropD)
  have "solid (drop e d) \<Longrightarrow> solid d"
    using assms(1) g gap_not_solid by (auto simp: chunks_ok_Cons)
  with assms(1) g s l show ?thesis
    by (auto simp: chunks_ok_Cons)
qed

lemma junction:
  assumes "chunks_ok (xs @ zs)"
  shows "concat zs = [] \<or> isspace (hd (concat zs)) \<or> pending [] (concat xs) = []
    \<or> may_break w (pending [] (concat xs)) (hd (words (concat zs)))"
proof (cases "xs = [] \<or> zs = []")
  case True
  then show ?thesis by auto
next
  case False
  then have ne: "xs \<noteq> []" "zs \<noteq> []" by auto
  define x d where "x = last xs" and "d = hd zs"
  from ne have xin: "x \<in> set (xs @ zs)" and din: "d \<in> set (xs @ zs)"
    by (auto simp: x_def d_def)
  from chunks_ok_all [OF assms xin] chunks_ok_all [OF assms din]
  have kinds: "gap x \<or> solid x" "gap d \<or> solid d" .
  then have xne: "x \<noteq> []" and dne: "d \<noteq> []" by (auto simp: gap_def solid_def)
  from ne have "xs = butlast xs @ [x]" by (simp add: x_def)
  then have "concat xs = concat (butlast xs) @ x"
    by (metis concat.simps concat_append append_Nil2)
  with xne have L: "concat xs \<noteq> []" "last (concat xs) = last x" by auto
  from ne obtain zs' where "zs = d # zs'" by (cases zs) (auto simp: d_def)
  with dne have R: "concat zs \<noteq> []" "hd (concat zs) = hd d" by auto
  show ?thesis
  proof (cases "gap x")
    case True
    with xne have "isspace (last x)" by (auto simp: gap_def list_all_iff)
    with L show ?thesis by (simp add: pending_empty)
  next
    case False
    with kinds have sx: "solid x" by blast
    show ?thesis
    proof (cases "gap d")
      case True
      with dne have "isspace (hd d)" by (cases d) (auto simp: gap_def)
      with R show ?thesis by simp
    next
      case False
      with kinds have sd: "solid d" by blast
      from assms ne sx sd have "last x = 45 \<or> hd d = 45"
        by (simp add: chunks_ok_append x_def d_def)
      moreover from sx xne have "\<not> isspace (last x)" by (auto simp: solid_def list_all_iff)
      moreover from sd dne have "\<not> isspace (hd d)" by (cases d) (auto simp: solid_def)
      ultimately show ?thesis
        using may_break_hyphen [of "concat xs" "concat zs" w] L R by simp
    qed
  qed
qed

subsection \<open>One line\<close>

lemma handle_long_word_cases:
  assumes "1 \<le> w" and "handle_long_word w l1 r1 = (l2, r2)"
  obtains (whole) "l2 = l1" "r2 = r1"
  | (cut) d ds e where "r1 = d # ds" "w < length d" "e < length d"
      "l2 = l1 @ [take e d]" "r2 = drop e d # ds"
proof (cases r1)
  case Nil
  with assms(2) whole show ?thesis by simp
next
  case (Cons d ds)
  show ?thesis
  proof (cases "w < length d")
    case False
    with assms(2) Cons whole show ?thesis by simp
  next
    case True
    define e where "e = long_word_end w (sum_list (map length l1)) d"
    from long_word_end_le [OF assms(1), of "sum_list (map length l1)" d] True
    have "e < length d" by (simp add: e_def)
    with assms(2) Cons True cut [of d ds e] show ?thesis
      by (simp add: e_def Let_def)
  qed
qed

lemma wrap_line_parts:
  assumes ok: "chunks_ok (c # cs)" and w: "1 \<le> w"
    and wl: "wrap_line w s (c # cs) = (l, r)"
  shows "chunks_ok r"
    and "parts w (words (concat r)) X \<Longrightarrow>
      parts w (words (concat (c # cs))) (words (concat l) @ X)"
proof -
  define cs1 where "cs1 = (if blank c \<and> s then cs else c # cs)"
  define pre where "pre = (if blank c \<and> s then c else [])"
  obtain l1 r1 where f: "fit_chunks w 0 cs1 = (l1, r1)"
    by (cases "fit_chunks w 0 cs1")
  obtain l2 r2 where h: "handle_long_word w l1 r1 = (l2, r2)"
    by (cases "handle_long_word w l1 r1")
  from wl f h have l: "l = drop_trailing l2" and r: "r = r2"
    by (simp_all add: cs1_def wrap_line.simps)
  from fit_chunks_concat [OF f] have cat1: "l1 @ r1 = cs1" .
  from ok have ok1: "chunks_ok cs1" by (auto simp: cs1_def chunks_ok_Cons)
  with cat1 have ok11: "chunks_ok (l1 @ r1)" by simp
  then have okr1: "chunks_ok r1" by (simp add: chunks_ok_append)
  have pre: "list_all isspace pre" by (simp add: pre_def blank_def)
  have text1: "concat (c # cs) = pre @ concat cs1" by (simp add: pre_def cs1_def)
  have text2: "concat cs1 = concat l2 @ concat r2"
    using handle_long_word_concat [OF h] cat1 by (metis concat_append)
  have l1ne: "[] \<notin> set l1"
  proof
    assume "[] \<in> set l1"
    then have "[] \<in> set (l1 @ r1)" by simp
    from chunks_ok_all [OF ok11 this] show False by (simp add: gap_def solid_def)
  qed
  show okr: "chunks_ok r"
    using w h
  proof (cases rule: handle_long_word_cases)
    case whole
    with okr1 r show ?thesis by simp
  next
    case (cut d ds e)
    with okr1 r chunks_ok_drop [of d ds e] show ?thesis by simp
  qed
  assume X: "parts w (words (concat r)) X"
  define mid where "mid = (if l2 \<noteq> [] \<and> blank (last l2) then last l2 else [])"
  have mid: "list_all isspace mid" by (simp add: mid_def blank_def)
  have cl: "concat l2 = concat l @ mid"
  proof (cases "l2 \<noteq> [] \<and> blank (last l2)")
    case True
    then have "l2 = butlast l2 @ [last l2]" by simp
    then have "concat l2 = concat (butlast l2) @ last l2"
      by (metis concat.simps concat_append append_Nil2)
    with True show ?thesis by (simp add: l drop_trailing_def mid_def)
  next
    case False
    then show ?thesis by (auto simp: l drop_trailing_def mid_def)
  qed
  have all_text: "concat (c # cs) = pre @ concat l @ mid @ concat r"
    by (simp only: text1 text2 cl r append_assoc)
  have J: "mid \<noteq> [] \<or> concat r = [] \<or> isspace (hd (concat r)) \<or> pending [] (concat l) = []
      \<or> may_break w (pending [] (concat l)) (hd (words (concat r)))"
    using w h
  proof (cases rule: handle_long_word_cases)
    case whole
    show ?thesis
    proof (cases "l1 \<noteq> [] \<and> blank (last l1)")
      case True
      with l1ne have "last l1 \<noteq> []" by (metis last_in_set)
      with True whole show ?thesis by (simp add: mid_def)
    next
      case False
      with whole have "l = l1" by (auto simp: l drop_trailing_def)
      with junction [OF ok11, of w] whole r show ?thesis by simp
    qed
  next
    case (cut d ds e)
    show ?thesis
    proof (cases "blank (take e d)")
      case True
      with cut have m: "mid = take e d" and ll: "l = l1"
        by (simp_all add: mid_def l drop_trailing_def)
      show ?thesis
      proof (cases "take e d = []")
        case False
        with m show ?thesis by simp
      next
        case True
        with cut(3) have "e = 0" by (cases d) auto
        with cut have "r2 = r1" by simp
        with junction [OF ok11, of w] ll r show ?thesis by simp
      qed
    next
      case False
      with cut have ll: "l = l1 @ [take e d]"
        by (simp add: l drop_trailing_def)
      have "d \<in> set (l1 @ r1)" using cut(1) by simp
      from chunks_ok_all [OF ok11 this] have "gap d \<or> solid d" .
      moreover have "\<not> gap d"
        using False by (auto simp: gap_def blank_def list_all_iff dest: in_set_takeD)
      ultimately have sd: "solid d" by blast
      then have p: "list_all (\<lambda>x. \<not> isspace x) (take e d)"
        and q: "list_all (\<lambda>x. \<not> isspace x) (drop e d)"
        by (auto simp: solid_def list_all_iff dest: in_set_takeD in_set_dropD)
      from cut(3) have qne: "drop e d \<noteq> []" by simp
      from cut(2,3) have "w < length (take e d) + length (drop e d)" by simp
      from may_break_long [OF p q qne this, of "concat l1" "concat ds"]
      show ?thesis by (simp add: ll r cut(5))
    qed
  qed
  from text_parts [OF X pre mid J] all_text
  show "parts w (words (concat (c # cs))) (words (concat l) @ X)" by simp
qed

lemma wrap_loop_parts:
  "chunks_ok cs \<Longrightarrow> 1 \<le> w \<Longrightarrow>
     \<exists>X. concat (map words (wrap_loop w lines cs)) = concat (map words lines) @ X
       \<and> parts w (words (concat cs)) X"
proof (induction w lines cs rule: wrap_loop.induct)
  case (1 width lines)
  have "parts width (words (concat [])) []"
    using parts_refl [of "[]" width] by simp
  then show ?case by simp
next
  case (2 width lines c cs)
  obtain cur_line rest where wl: "wrap_line width (lines \<noteq> []) (c # cs) = (cur_line, rest)"
    by (cases "wrap_line width (lines \<noteq> []) (c # cs)")
  define lines' where "lines' = (if cur_line \<noteq> [] then lines @ [concat cur_line] else lines)"
  have loop: "wrap_loop width lines (c # cs) = wrap_loop width lines' rest"
    by (simp add: wl lines'_def)
  have wl': "concat (map words lines') = concat (map words lines) @ words (concat cur_line)"
    by (simp add: lines'_def)
  from wrap_line_parts(1) [OF "2.prems"(1,2) wl] have "chunks_ok rest" .
  from "2.IH" [OF wl [symmetric] this "2.prems"(2)] obtain X where
    X: "concat (map words (wrap_loop width lines' rest)) = concat (map words lines') @ X"
      "parts width (words (concat rest)) X"
    by (auto simp: lines'_def)
  from wrap_line_parts(2) [OF "2.prems"(1,2) wl X(2)]
  have "parts width (words (concat (c # cs))) (words (concat cur_line) @ X)" .
  with X(1) loop wl' show ?case by (intro exI [of _ "words (concat cur_line) @ X"]) simp
qed

subsection \<open>The chunks of a text\<close>

lemma tidy_ws: "tidy s \<Longrightarrow> c \<in> set s \<Longrightarrow> ws_char c \<longleftrightarrow> isspace c"
  by (auto simp: tidy_def list_all_iff ws_char_def isspace_def)

lemma emdash_ahead_hyphen: "emdash_ahead U (c # cs) \<Longrightarrow> c = 45"
  by (cases "c = 45") (auto simp: emdash_ahead_def Let_def)

lemma word_more_chunk:
  "tidy cs \<Longrightarrow>
     list_all (\<lambda>x. \<not> isspace x) (take (word_more U b cs) cs)
     \<and> (drop (word_more U b cs) cs = [] \<or> isspace (hd (drop (word_more U b cs) cs))
        \<or> hd (drop (word_more U b cs) cs) = 45
        \<or> (0 < word_more U b cs \<and> last (take (word_more U b cs) cs) = 45))"
proof (induction U b cs rule: word_more.induct)
  case (1 U behind)
  then show ?case by simp
next
  case (2 U behind c cs)
  from "2.prems" have t: "tidy cs" and c: "ws_char c \<longleftrightarrow> isspace c"
    using tidy_ws [OF "2.prems", of c] by (simp_all add: tidy_def)
  show ?case
  proof (cases "c = 45 \<and> hyphen_behind U behind \<and> hyphen_ahead U cs")
    case True
    then show ?thesis by (simp add: isspace_def)
  next
    case a: False
    show ?thesis
    proof (cases "ws_char c")
      case True
      with a c show ?thesis by auto
    next
      case b: False
      show ?thesis
      proof (cases "punct_behind U behind \<and> emdash_ahead U (c # cs)")
        case True
        with emdash_ahead_hyphen [of U c cs] a b show ?thesis by auto
      next
        case False
        from "2.IH" [OF a b False t] a b False c show ?thesis
          by (cases "word_more U (c # behind) cs") auto
      qed
    qed
  qed
qed

lemma takeWhile_hyphens_last: "last (c # takeWhile (\<lambda>x. x = c) cs) = c"
  by (induction cs) auto

lemma chunk_more_chunk:
  fixes U :: unicode and b cs :: pystr and c :: nat
  assumes "tidy (c # cs)"
  defines "n \<equiv> chunk_more U b c cs"
  shows "gap (c # take n cs) \<or> solid (c # take n cs)"
    and "solid (c # take n cs) \<Longrightarrow> drop n cs \<noteq> [] \<Longrightarrow> \<not> isspace (hd (drop n cs)) \<Longrightarrow>
      last (c # take n cs) = 45 \<or> hd (drop n cs) = 45"
proof -
  from assms(1) have t: "tidy cs" and c: "ws_char c \<longleftrightarrow> isspace c"
    using tidy_ws [OF assms(1), of c] by (simp_all add: tidy_def)
  have both: "(gap (c # take n cs) \<or> solid (c # take n cs))
    \<and> (solid (c # take n cs) \<longrightarrow> drop n cs \<noteq> [] \<longrightarrow> \<not> isspace (hd (drop n cs)) \<longrightarrow>
      last (c # take n cs) = 45 \<or> hd (drop n cs) = 45)"
  proof (cases "ws_char c")
    case True
    then have n: "n = length (takeWhile ws_char cs)" by (simp add: n_def chunk_more_def)
    have "list_all ws_char (take n cs)"
      unfolding n by (simp add: takeWhile_eq_take [symmetric] list_all_iff)
         (auto dest: set_takeWhileD)
    then have "list_all isspace (take n cs)"
      by (auto simp: list_all_iff dest: ws_char_isspace)
    with True c show ?thesis by (simp add: gap_def solid_def)
  next
    case ws: False
    show ?thesis
    proof (cases "punct_behind U b \<and> emdash_ahead U (c # cs)")
      case True
      with ws have n: "n = length (takeWhile (\<lambda>x. x = 45) cs)"
        by (auto simp: n_def chunk_more_def)
      from True have c45: "c = 45" using emdash_ahead_hyphen by blast
      have tk: "take n cs = takeWhile (\<lambda>x. x = 45) cs"
        unfolding n by (simp add: takeWhile_eq_take [symmetric])
      have "list_all (\<lambda>x. x = 45) (take n cs)"
        unfolding tk by (auto simp: list_all_iff dest: set_takeWhileD)
      then have "list_all (\<lambda>x. \<not> isspace x) (take n cs)"
        by (auto simp: list_all_iff isspace_def)
      moreover have "last (c # take n cs) = 45"
        unfolding tk c45 by (rule takeWhile_hyphens_last)
      ultimately show ?thesis using c45 by (simp add: solid_def isspace_def)
    next
      case False
      with ws have n: "n = word_more U (c # b) cs" by (auto simp: n_def chunk_more_def)
      from word_more_chunk [OF t, of U "c # b"] ws c show ?thesis
        unfolding n [symmetric] by (cases n) (auto simp: solid_def)
    qed
  qed
  from both show "gap (c # take n cs) \<or> solid (c # take n cs)" by blast
  from both show "solid (c # take n cs) \<Longrightarrow> drop n cs \<noteq> [] \<Longrightarrow> \<not> isspace (hd (drop n cs)) \<Longrightarrow>
      last (c # take n cs) = 45 \<or> hd (drop n cs) = 45" by blast
qed

lemma split_from_hd:
  "hd (split_from U b (c # cs)) = c # take (chunk_more U b c cs) cs"
  by simp

lemma split_from_ok: "tidy t \<Longrightarrow> chunks_ok (split_from U b t)"
proof (induction U b t rule: split_from.induct)
  case (1 U behind)
  then show ?case by simp
next
  case (2 U behind c cs)
  define n where "n = chunk_more U behind c cs"
  define b' where "b' = rev (take n cs) @ c # behind"
  from "2.prems" have "tidy (drop n cs)"
    by (auto simp: tidy_def list_all_iff dest: in_set_dropD)
  from "2.IH" [OF this [unfolded n_def]] have ok: "chunks_ok (split_from U b' (drop n cs))"
    by (simp add: n_def b'_def)
  from chunk_more_chunk [OF "2.prems", of U behind]
  have kind: "gap (c # take n cs) \<or> solid (c # take n cs)"
    and adj: "solid (c # take n cs) \<Longrightarrow> drop n cs \<noteq> [] \<Longrightarrow> \<not> isspace (hd (drop n cs)) \<Longrightarrow>
      last (c # take n cs) = 45 \<or> hd (drop n cs) = 45"
    by (simp_all add: n_def)
  have "last (c # take n cs) = 45 \<or> hd (hd (split_from U b' (drop n cs))) = 45"
    if "split_from U b' (drop n cs) \<noteq> []" "solid (c # take n cs)"
      "solid (hd (split_from U b' (drop n cs)))"
  proof -
    from that(1) obtain x xs where d: "drop n cs = x # xs" by (cases "drop n cs") auto
    with that(3) have "\<not> isspace x" by (simp add: solid_def)
    with adj [OF that(2)] d show ?thesis by simp
  qed
  with ok kind have "chunks_ok ((c # take n cs) # split_from U b' (drop n cs))"
    by (simp only: chunks_ok_Cons) blast
  then show ?case by (simp add: n_def b'_def)
qed

lemma expandtabs_chars: "set (expandtabs j t) \<subseteq> insert 32 (set t)"
  by (induction j t rule: expandtabs.induct) auto

lemma munge_tidy: "ascii_spaces t \<Longrightarrow> tidy (munge_whitespace t)"
proof -
  assume a: "ascii_spaces t"
  have "c' = 32 \<or> \<not> isspace c'" if "c' \<in> set (munge_whitespace t)" for c'
  proof -
    from that obtain c where c: "c \<in> set (expandtabs 0 t)" "c' = (if ws_char c then 32 else c)"
      by (auto simp: munge_whitespace_def)
    show ?thesis
    proof (cases "ws_char c")
      case True
      with c show ?thesis by simp
    next
      case False
      then have "c \<noteq> 32" by (auto simp: ws_char_def)
      with c(1) expandtabs_chars [of 0 t] have "c \<in> set t" by auto
      with a False have "\<not> isspace c" by (auto simp: ascii_spaces_def list_all_iff)
      with c False show ?thesis by simp
    qed
  qed
  then show ?thesis by (auto simp: tidy_def list_all_iff)
qed

lemma split_ws_spaces:
  "0 < n \<Longrightarrow> split_ws cur (replicate n 32 @ s) = (if cur = [] then [] else [cur]) @ words s"
proof (induction n arbitrary: cur)
  case 0
  then show ?case by simp
next
  case (Suc n)
  have sp: "isspace 32" by (simp add: isspace_def)
  show ?case
  proof (cases n)
    case 0
    with sp show ?thesis by simp
  next
    case (Suc m)
    with Suc.IH [of "[]"] sp show ?thesis by simp
  qed
qed

lemma split_ws_expandtabs:
  "split_ws cur (map (\<lambda>c. if ws_char c then 32 else c) (expandtabs j t)) = split_ws cur t"
proof (induction j t arbitrary: cur rule: expandtabs.induct)
  case (1 j)
  then show ?case by simp
next
  case (2 j c cs)
  have sp: "isspace 32" "isspace 9" by (simp_all add: isspace_def)
  show ?case
  proof (cases "c = 9")
    case True
    have "0 < 8 - j mod 8" by simp
    from split_ws_spaces [OF this] True 2 sp show ?thesis
      by (simp add: ws_char_def)
  next
    case False
    show ?thesis
    proof (cases "ws_char c")
      case True
      with False 2 sp ws_char_isspace [OF True] show ?thesis by auto
    next
      case w: False
      then have "c \<noteq> 10" "c \<noteq> 13" by (auto simp: ws_char_def)
      with False w 2 show ?thesis by simp
    qed
  qed
qed

lemma words_munge: "words (munge_whitespace t) = words t"
  by (simp add: munge_whitespace_def split_ws_expandtabs)

lemma wrap_parts:
  assumes "0 < w" and "ascii_spaces t"
  shows "\<exists>ls. wrap U w t = Inr ls \<and> parts (nat w) (words t) (concat (map words ls))"
proof -
  have ok: "chunks_ok (split_chunks U t)"
    unfolding split_chunks_def by (intro split_from_ok munge_tidy assms(2))
  from assms(1) have "1 \<le> nat w" by simp
  from wrap_loop_parts [OF ok this, of "[]"] obtain X where
    "concat (map words (wrap_loop (nat w) [] (split_chunks U t))) = X"
    "parts (nat w) (words (concat (split_chunks U t))) X" by auto
  then show ?thesis using assms(1)
    by (simp add: wrap_def wrap_chunks_def split_chunks_def split_from_concat words_munge)
qed

lemma words_join: "words (join 32 ls) = concat (map words ls)"
proof (induction "32 :: nat" ls rule: join.induct)
  case 1
  then show ?case by simp
next
  case (2 l)
  then show ?case by simp
next
  case (3 l v va)
  have "isspace 32" by (simp add: isspace_def)
  then have "words (l @ 32 # join 32 (v # va)) = words l @ words (join 32 (v # va))"
    using words_two_parts [of l "32 # join 32 (v # va)"] by simp
  with 3 show ?case by simp
qed

subsection \<open>The claims about the wrapper\<close>

text \<open>
  C2, as the specification states it, fails, whatever the Unicode tables. The wrapper
  breaks inside words: the first caption of the diagram, at the default width 50, is
  broken after the hyphen of \<^verbatim>\<open>address-lookup\<close>, inside a word of 56 characters that
  is not left whole on a line of its own; the second is broken after the hyphen of
  \<^verbatim>\<open>CF-Access\<close>, a word that fits; a word without a hyphen that is longer than the
  width is cut at the width. And since the no-break space is no whitespace for the
  wrapper, \<^verbatim>\<open>"ab\xa0cd"\<close> is one word of five characters for it, cut at width 4
  inside \<^verbatim>\<open>cd\<close>.
\<close>

theorem wrap_breaks_inside_words:
  "\<forall>U.
     wrap U 50 (py ''GET /api/address-lookup?pc=CB97XU&dataset=LPI&maxresults=100'')
       = Inr [py ''GET /api/address-'', py ''lookup?pc=CB97XU&dataset=LPI&maxresults=100'']
     \<and> wrap U 50
         (py ''WAF / Bot evaluation\<newline>Skip via custom rule when CF-Access headers present'')
       = Inr [py ''WAF / Bot evaluation Skip via custom rule when CF-'',
              py ''Access headers present'']
     \<and> wrap U 3 (py ''abcdef'') = Inr [py ''abc'', py ''def'']
     \<and> wrap U 4 (py ''ab'' @ 160 # py ''cd'') = Inr [py ''ab'' @ 160 # py ''c'', py ''d'']"
  by (simp add: wrap_eval)

text \<open>
  C2, amended: for every caption and every positive width the wrapper returns lines of
  at most \<open>width\<close> characters each, and the characters of the lines that are not
  whitespace are those of the caption, in their order: nothing is truncated. If the
  whitespace characters of the caption are among the six of the wrapper, it breaks
  only at whitespace, next to a hyphen, or inside a word that is longer than the
  width: the words of the lines, in their order, are the words of the caption, each of
  them whole or split into pieces that together are the word, and a word that is not
  longer than the width is split only right before or right after one of its hyphens.
\<close>

theorem wrap_breaks_only_breakable_words:
  assumes "0 < w"
  shows "\<exists>ls. wrap U w t = Inr ls
    \<and> (\<forall>l\<in>set ls. length l \<le> nat w)
    \<and> visible (concat ls) = visible t
    \<and> (ascii_spaces t \<longrightarrow> pieces (nat w) (words t) (concat (map words ls)))"
proof -
  from assms obtain ls where ls: "wrap U w t = Inr ls"
    by (simp add: wrap_def wrap_chunks_def)
  with assms wrap_loop_len [of "nat w" "[]" "split_chunks U t"]
  have len: "\<forall>l\<in>set ls. length l \<le> nat w"
    by (auto simp: wrap_def wrap_chunks_def)
  from ls assms have v: "visible (concat ls) = visible t"
    by (auto simp: wrap_def wrap_chunks_def split_chunks_def wrap_loop_visible
        split_from_concat visible_munge)
  have "pieces (nat w) (words t) (concat (map words ls))" if a: "ascii_spaces t"
    using wrap_parts [OF assms a, of U] ls parts_pieces by auto
  with ls len v show ?thesis by blast
qed

theorem wrap_breaks_only_breakable_words_witness:
  "\<forall>U. (0 :: int) < 5 \<and> ascii_spaces (py ''x ab-cd yz'')
     \<and> (\<exists>ls. wrap U 5 (py ''x ab-cd yz'') = Inr ls
          \<and> (\<forall>l\<in>set ls. length l \<le> nat 5)
          \<and> visible (concat ls) = visible (py ''x ab-cd yz'')
          \<and> pieces (nat 5) (words (py ''x ab-cd yz'')) (concat (map words ls)))"
proof
  fix U
  have a: "ascii_spaces (py ''x ab-cd yz'')"
    by (simp add: ascii_spaces_def py_def ws_char_def isspace_def)
  from wrap_breaks_only_breakable_words [of 5 U "py ''x ab-cd yz''"] a
  show "(0 :: int) < 5 \<and> ascii_spaces (py ''x ab-cd yz'')
     \<and> (\<exists>ls. wrap U 5 (py ''x ab-cd yz'') = Inr ls
          \<and> (\<forall>l\<in>set ls. length l \<le> nat 5)
          \<and> visible (concat ls) = visible (py ''x ab-cd yz'')
          \<and> pieces (nat 5) (words (py ''x ab-cd yz'')) (concat (map words ls)))"
    by simp
qed

text \<open>
  C7, as the specification states it, fails, whatever the Unicode tables: a run of
  whitespace inside a line keeps its length; a word longer than the width is split,
  and so is a word with a hyphen that fits; and \<^verbatim>\<open>"ab\xa0cd"\<close>, two words for
  \<^verbatim>\<open>split()\<close> and one for the wrapper, is cut at width 4 inside \<^verbatim>\<open>cd\<close>. In each
  case the lines joined by single spaces are not the whitespace-normalised caption.
\<close>

theorem rejoined_lines_not_normalized:
  "\<forall>U.
     wrap U 50 (py ''a  b'') = Inr [py ''a  b'']
     \<and> join 32 [py ''a  b''] \<noteq> normalized (py ''a  b'')
     \<and> wrap U 4 (py ''abcdefg'') = Inr [py ''abcd'', py ''efg'']
     \<and> join 32 [py ''abcd'', py ''efg''] \<noteq> normalized (py ''abcdefg'')
     \<and> wrap U 5 (py ''x ab-cd'') = Inr [py ''x ab-'', py ''cd'']
     \<and> join 32 [py ''x ab-'', py ''cd''] \<noteq> normalized (py ''x ab-cd'')
     \<and> wrap U 4 (py ''ab'' @ 160 # py ''cd'') = Inr [py ''ab'' @ 160 # py ''c'', py ''d'']
     \<and> normalized (join 32 [py ''ab'' @ 160 # py ''c'', py ''d''])
         \<noteq> normalized (py ''ab'' @ 160 # py ''cd'')"
  by (simp add: wrap_eval normalized_def)

text \<open>
  C7, amended: for every caption and every positive width, the lines joined by single
  spaces have the characters of the caption that are not whitespace, in their order.
  If the whitespace characters of the caption are among the six of the wrapper, the
  words of the joined lines are the words of the caption in their order, each whole or
  in pieces that together are the word (with spaces between them), and a word that is
  not longer than the width is in pieces only where it has a hyphen, split right before
  or right after it; and if no word of the caption is longer than the width or has a
  hyphen, the joined lines, whitespace-normalised as the caption is (runs inside a
  line keep their length), are the whitespace-normalised caption.
\<close>

theorem rejoined_lines_words:
  assumes "0 < w"
  shows "\<exists>ls. wrap U w t = Inr ls
    \<and> visible (join 32 ls) = visible t
    \<and> (ascii_spaces t \<longrightarrow>
         pieces (nat w) (words t) (words (join 32 ls))
         \<and> ((\<forall>u\<in>set (words t). \<not> breakable (nat w) u) \<longrightarrow>
              normalized (join 32 ls) = normalized t))"
proof -
  from assms obtain ls where ls: "wrap U w t = Inr ls"
    by (simp add: wrap_def wrap_chunks_def)
  with assms have v: "visible (join 32 ls) = visible t"
    by (auto simp: wrap_def wrap_chunks_def split_chunks_def visible_join wrap_loop_visible
        split_from_concat visible_munge)
  have "pieces (nat w) (words t) (words (join 32 ls))
      \<and> ((\<forall>u\<in>set (words t). \<not> breakable (nat w) u) \<longrightarrow>
           normalized (join 32 ls) = normalized t)"
    if a: "ascii_spaces t"
  proof -
    from wrap_parts [OF assms a, of U] ls
    have p: "parts (nat w) (words t) (words (join 32 ls))"
      by (simp add: words_join)
    have "normalized (join 32 ls) = normalized t"
      if "\<forall>u\<in>set (words t). \<not> breakable (nat w) u"
      using parts_unbroken [OF p that] by (simp add: normalized_def)
    with p parts_pieces show ?thesis by blast
  qed
  with ls v show ?thesis by blast
qed

theorem rejoined_lines_words_witness:
  "\<forall>U. (0 :: int) < 8 \<and> ascii_spaces (py ''ab  cd\<newline>ef'')
     \<and> (\<forall>u\<in>set (words (py ''ab  cd\<newline>ef'')). \<not> breakable (nat 8) u)
     \<and> (\<exists>ls. wrap U 8 (py ''ab  cd\<newline>ef'') = Inr ls
          \<and> visible (join 32 ls) = visible (py ''ab  cd\<newline>ef'')
          \<and> pieces (nat 8) (words (py ''ab  cd\<newline>ef'')) (words (join 32 ls))
          \<and> normalized (join 32 ls) = normalized (py ''ab  cd\<newline>ef''))"
proof
  fix U
  have a: "ascii_spaces (py ''ab  cd\<newline>ef'')"
    by (simp add: ascii_spaces_def py_def ws_char_def isspace_def)
  have b: "\<forall>u\<in>set (words (py ''ab  cd\<newline>ef'')). \<not> breakable (nat 8) u"
    by (simp add: py_def isspace_def breakable_def)
  from rejoined_lines_words [of 8 U "py ''ab  cd\<newline>ef''"] a b
  show "(0 :: int) < 8 \<and> ascii_spaces (py ''ab  cd\<newline>ef'')
     \<and> (\<forall>u\<in>set (words (py ''ab  cd\<newline>ef'')). \<not> breakable (nat 8) u)
     \<and> (\<exists>ls. wrap U 8 (py ''ab  cd\<newline>ef'') = Inr ls
          \<and> visible (join 32 ls) = visible (py ''ab  cd\<newline>ef'')
          \<and> pieces (nat 8) (words (py ''ab  cd\<newline>ef'')) (words (join 32 ls))
          \<and> normalized (join 32 ls) = normalized (py ''ab  cd\<newline>ef''))"
    by simp
qed

text \<open>
  C10, as stated, fails for the tab, whatever the Unicode tables: the wrapper does not
  turn it into a single space but into the one to eight spaces that reach the next
  tab stop, counted from the last line break. So the caption's own line breaks can
  decide how it is wrapped: at width 14 the caption \<^verbatim>\<open>"ab\n\tcdefg"\<close> is wrapped
  into two lines, and the same caption with a space for its newline into one.
\<close>

theorem tab_not_a_single_space:
  "\<forall>U.
     munge_whitespace [97, 9, 98] = [97, 32, 32, 32, 32, 32, 32, 32, 98]
     \<and> wrap U 14 (py ''ab'' @ [10, 9] @ py ''cdefg'') = Inr [py ''ab'', py ''cdefg'']
     \<and> wrap U 14 (py ''ab'' @ [32, 9] @ py ''cdefg'') = Inr [py ''ab      cdefg'']"
  by (simp add: wrap_eval)

text \<open>
  C10, amended: the newlines of a caption are not kept as line breaks. No line the
  wrapper returns contains a newline; and in a caption without tabs every whitespace
  character, the newline among them, becomes a single space before the caption is
  wrapped, so that its lines are those of the caption with a space for every newline.
\<close>

theorem newlines_not_kept:
  "(\<forall>ls l. wrap U w t = Inr ls \<longrightarrow> l \<in> set ls \<longrightarrow> 10 \<notin> set l)
   \<and> (9 \<notin> set t \<longrightarrow>
        munge_whitespace t = map (\<lambda>c. if ws_char c then 32 else c) t
        \<and> wrap U w t = wrap U w (map (\<lambda>c. if c = 10 then 32 else c) t))"
proof -
  have "10 \<notin> set l" if "wrap U w t = Inr ls" "l \<in> set ls" for ls l
  proof
    assume "10 \<in> set l"
    from munge_whitespace_chars [OF wrap_chars [OF that this]] show False
      by (simp add: ws_char_def)
  qed
  moreover have "wrap U w t = wrap U w (map (\<lambda>c. if c = 10 then 32 else c) t)"
    if "9 \<notin> set t"
    using munge_newlines [OF that] by (simp add: wrap_def split_chunks_def)
  ultimately show ?thesis using munge_no_tab by blast
qed

theorem newlines_not_kept_witness:
  "\<forall>U. wrap U 50 (py ''WAF\<newline>Skip'') = Inr [py ''WAF Skip'']
   \<and> 10 \<notin> set (py ''WAF Skip'')
   \<and> 9 \<notin> set (py ''WAF\<newline>Skip'')
   \<and> munge_whitespace (py ''WAF\<newline>Skip'')
       = map (\<lambda>c. if ws_char c then 32 else c) (py ''WAF\<newline>Skip'')
   \<and> wrap U 50 (py ''WAF\<newline>Skip'')
       = wrap U 50 (map (\<lambda>c. if c = 10 then 32 else c) (py ''WAF\<newline>Skip''))"
proof
  fix U
  have w: "wrap U 50 (py ''WAF\<newline>Skip'') = Inr [py ''WAF Skip'']"
    by (simp add: wrap_eval)
  have t: "9 \<notin> set (py ''WAF\<newline>Skip'')"
    by (simp add: py_def)
  from newlines_not_kept [of U 50 "py ''WAF\<newline>Skip''"] w t
  show "wrap U 50 (py ''WAF\<newline>Skip'') = Inr [py ''WAF Skip'']
   \<and> 10 \<notin> set (py ''WAF Skip'')
   \<and> 9 \<notin> set (py ''WAF\<newline>Skip'')
   \<and> munge_whitespace (py ''WAF\<newline>Skip'')
       = map (\<lambda>c. if ws_char c then 32 else c) (py ''WAF\<newline>Skip'')
   \<and> wrap U 50 (py ''WAF\<newline>Skip'')
       = wrap U 50 (map (\<lambda>c. if c = 10 then 32 else c) (py ''WAF\<newline>Skip''))"
    by simp
qed

section \<open>The build: properties\<close>

subsection \<open>Statements\<close>

lemma box_text_ok:
  "0 < cfg_wrap cfg \<Longrightarrow>
     box_text env cfg x y t w = (None, draw (BoxText x y (wrapped env cfg t) (cfg_label_font cfg)) w)"
  by (simp add: box_text_def fill_Inr wrapped_def)

lemma box_text_fail: "cfg_wrap cfg \<le> 0 \<Longrightarrow> box_text env cfg x y t w = (Some ValueError, w)"
  by (simp add: box_text_def fill_Inl)

lemma exec_step_ok:
  "0 < cfg_wrap cfg \<Longrightarrow> ys w = y # rest \<Longrightarrow>
     exec_step env cfg s w = (None, w\<lparr>canvas := canvas w @ step_ops env cfg s y, ys := rest\<rparr>)"
  by (cases s) (simp_all add: arrow_def box_text_ok draw_def)

lemma exec_step_empty: "ys w = [] \<Longrightarrow> exec_step env cfg s w = (Some StopIteration, w)"
  by (cases s) simp_all

lemma exec_step_fail:
  "cfg_wrap cfg \<le> 0 \<Longrightarrow> ys w = y # rest \<Longrightarrow>
     fst (exec_step env cfg s w) = Some ValueError \<and> ys (snd (exec_step env cfg s w)) = rest"
  by (cases s) (simp_all add: arrow_def box_text_fail draw_def)

lemma exec_steps_ok:
  "0 < cfg_wrap cfg \<Longrightarrow> length steps \<le> length (ys w) \<Longrightarrow>
     exec_steps env cfg steps w =
       (None, w\<lparr>canvas := canvas w @ concat (map2 (step_ops env cfg) steps (ys w)),
                 ys := drop (length steps) (ys w)\<rparr>)"
proof (induction steps arbitrary: w)
  case Nil
  then show ?case by simp
next
  case (Cons s steps)
  then obtain y rest where yr: "ys w = y # rest" by (cases "ys w") auto
  let ?w = "w\<lparr>canvas := canvas w @ step_ops env cfg s y, ys := rest\<rparr>"
  from Cons.prems yr have "length steps \<le> length (ys ?w)" by simp
  from Cons.IH [OF Cons.prems(1) this] exec_step_ok [OF Cons.prems(1) yr, of env s] yr
  show ?case by simp
qed

lemma exec_steps_short:
  "0 < cfg_wrap cfg \<Longrightarrow> length (ys w) < length steps \<Longrightarrow>
     fst (exec_steps env cfg steps w) = Some StopIteration"
proof (induction steps arbitrary: w)
  case Nil
  then show ?case by simp
next
  case (Cons s steps)
  show ?case
  proof (cases "ys w")
    case Nil
    then show ?thesis by (simp add: exec_step_empty)
  next
    case (Cons y rest)
    let ?w = "w\<lparr>canvas := canvas w @ step_ops env cfg s y, ys := rest\<rparr>"
    from Cons.prems Cons have "length (ys ?w) < length steps" by simp
    from Cons.IH [OF Cons.prems(1) this] exec_step_ok [OF Cons.prems(1) Cons, of env s]
    show ?thesis by simp
  qed
qed

lemma exec_steps_bad_wrap:
  "cfg_wrap cfg \<le> 0 \<Longrightarrow> ys w = y # rest \<Longrightarrow>
     fst (exec_steps env cfg (s # steps) w) = Some ValueError
     \<and> ys (snd (exec_steps env cfg (s # steps) w)) = rest"
  using exec_step_fail [of cfg w y rest env s]
  by (cases "exec_step env cfg s w") auto

lemma exec_step_files:
  "files (snd (exec_step env cfg s w)) = files w \<and> stdout (snd (exec_step env cfg s w)) = stdout w"
  by (cases s; cases "ys w")
     (auto simp: arrow_def box_text_def draw_def split: sum.splits)

lemma exec_steps_files:
  "files (snd (exec_steps env cfg steps w)) = files w
   \<and> stdout (snd (exec_steps env cfg steps w)) = stdout w"
proof (induction steps arbitrary: w)
  case Nil
  then show ?case by simp
next
  case (Cons s steps)
  obtain e w' where sw: "exec_step env cfg s w = (e, w')" by (cases "exec_step env cfg s w")
  with exec_step_files [of env cfg s w] have "files w' = files w" "stdout w' = stdout w" by simp_all
  with Cons.IH [of w'] sw show ?case by (cases e) simp_all
qed

lemma draw_lanes_canvas:
  "draw_lanes cfg ls w =
     w\<lparr>canvas := canvas w
        @ concat (map (\<lambda>(x, label). [Plot x, Title x label (cfg_title_font cfg)]) ls)\<rparr>"
  by (induction ls arbitrary: w) (auto simp: draw_def)


subsection \<open>The whole run\<close>

lemma start_eq:
  "start cfg slots = \<lparr>canvas = lane_ops cfg, ys = slots, files = [], stdout = []\<rparr>"
  by (simp add: start_def fresh_def draw_lanes_canvas lane_ops_def)


lemma build_with_drawn:
  assumes "\<not> subplots_raises env (cfg_width cfg) (cfg_height cfg)"
    and "0 < cfg_wrap cfg" and "length steps \<le> length slots"
  shows "build_with env slots steps cfg = save_and_report env cfg (drawn env slots steps cfg)"
proof -
  from assms(3) have "length steps \<le> length (ys (start cfg slots))" by (simp add: start_eq)
  from exec_steps_ok [OF assms(2) this, of env] assms(1) show ?thesis
    by (simp add: build_with_def start_eq drawn_def)
qed

lemma build_with_empty:
  "\<not> subplots_raises env (cfg_width cfg) (cfg_height cfg) \<Longrightarrow>
     build_with env slots [] cfg = save_and_report env cfg (drawn env slots [] cfg)"
  by (simp add: build_with_def start_eq drawn_def)

lemma save_and_report_world:
  "canvas (snd (save_and_report env cfg w)) = canvas w"
  "ys (snd (save_and_report env cfg w)) = ys w"
  by (simp_all add: save_and_report_def)

lemma build_with_short:
  assumes "\<not> subplots_raises env (cfg_width cfg) (cfg_height cfg)"
    and "0 < cfg_wrap cfg" and "length slots < length steps"
  shows "fst (build_with env slots steps cfg) = Some StopIteration"
proof -
  from assms(3) have "length (ys (start cfg slots)) < length steps" by (simp add: start_eq)
  from exec_steps_short [OF assms(2) this, of env] assms(1) show ?thesis
    by (cases "exec_steps env cfg steps (start cfg slots)") (auto simp: build_with_def)
qed

lemma build_with_bad_wrap:
  assumes "\<not> subplots_raises env (cfg_width cfg) (cfg_height cfg)"
    and "cfg_wrap cfg \<le> 0" and "steps \<noteq> []" and "slots \<noteq> []"
  shows "fst (build_with env slots steps cfg) = Some ValueError
   \<and> ys (snd (build_with env slots steps cfg)) = tl slots"
proof -
  from assms(3) obtain s ss where s: "steps = s # ss" by (cases steps) auto
  from assms(4) obtain y rest where y: "slots = y # rest" by (cases slots) auto
  have "ys (start cfg (y # rest)) = y # rest" by (simp add: start_eq)
  from exec_steps_bad_wrap [OF assms(2) this, of env s ss] s y assms(1) show ?thesis
    by (cases "exec_steps env cfg (s # ss) (start cfg (y # rest))") (simp add: build_with_def)
qed

lemma build_with_no_slot:
  "\<not> subplots_raises env (cfg_width cfg) (cfg_height cfg) \<Longrightarrow>
     fst (build_with env [] (s # steps) cfg) = Some StopIteration"
  by (simp add: build_with_def start_eq exec_step_empty)

lemma build_with_saving:
  assumes "fst (build_with env slots steps cfg) \<noteq> Some FigureError"
    and "fst (build_with env slots steps cfg) \<noteq> Some StopIteration"
    and "fst (build_with env slots steps cfg) \<noteq> Some ValueError"
  shows "\<not> subplots_raises env (cfg_width cfg) (cfg_height cfg)
    \<and> (steps = [] \<or> 0 < cfg_wrap cfg) \<and> length steps \<le> length slots"
proof -
  from assms(1) have fig: "\<not> subplots_raises env (cfg_width cfg) (cfg_height cfg)"
    by (auto simp: build_with_def)
  show ?thesis
  proof (cases steps)
    case Nil
    with fig show ?thesis by simp
  next
    case (Cons s ss)
    show ?thesis
    proof (cases "0 < cfg_wrap cfg")
      case True
      with build_with_short [OF fig, of slots steps] assms(2) fig show ?thesis
        by (cases "length steps \<le> length slots") auto
    next
      case False
      then have le: "cfg_wrap cfg \<le> 0" by simp
      show ?thesis
      proof (cases slots)
        case Nil
        with assms(2) Cons build_with_no_slot [OF fig, of s ss] show ?thesis by simp
      next
        case (Cons y rest)
        with assms(3) \<open>steps = s # ss\<close> build_with_bad_wrap [OF fig le, of steps slots]
        show ?thesis by simp
      qed
    qed
  qed
qed

lemma build_with_None:
  assumes "fst (build_with env slots steps cfg) = None"
  shows "\<not> subplots_raises env (cfg_width cfg) (cfg_height cfg)
    \<and> (steps = [] \<or> 0 < cfg_wrap cfg) \<and> length steps \<le> length slots"
  using assms by (intro build_with_saving) simp_all

lemma build_with_reached:
  assumes "\<not> subplots_raises env (cfg_width cfg) (cfg_height cfg)"
    and "steps = [] \<or> 0 < cfg_wrap cfg" and "length steps \<le> length slots"
  shows "build_with env slots steps cfg = save_and_report env cfg (drawn env slots steps cfg)"
  using assms build_with_drawn [of env cfg steps slots] build_with_empty [of env cfg slots]
  by auto

lemma build_with_files:
  "fst (build_with env slots steps cfg) \<noteq> None \<Longrightarrow>
     fst (build_with env slots steps cfg) \<noteq> Some PrintError \<Longrightarrow>
     files (snd (build_with env slots steps cfg)) = []"
  using exec_steps_files [of env cfg steps "start cfg slots"]
  by (cases "exec_steps env cfg steps (start cfg slots)")
     (auto simp: build_with_def start_eq fresh_def save_and_report_def
        split: option.splits if_splits)

lemma build_with_stdout:
  "fst (build_with env slots steps cfg) \<noteq> None \<Longrightarrow>
     stdout (snd (build_with env slots steps cfg)) = []"
  using exec_steps_files [of env cfg steps "start cfg slots"]
  by (cases "exec_steps env cfg steps (start cfg slots)")
     (auto simp: build_with_def start_eq fresh_def save_and_report_def
        split: option.splits if_splits)

lemma build_with_done:
  assumes "fst (build_with env slots steps cfg) = None"
  shows "snd (build_with env slots steps cfg) =
     \<lparr>canvas = lane_ops cfg @ concat (map2 (step_ops env cfg) steps slots),
      ys = drop (length steps) slots,
      files = [(cfg_output cfg, lane_ops cfg @ concat (map2 (step_ops env cfg) steps slots))],
      stdout = [py ''Saved: '' @ cfg_output cfg]\<rparr>"
proof -
  from build_with_None [OF assms]
  have "build_with env slots steps cfg = save_and_report env cfg (drawn env slots steps cfg)"
    by (intro build_with_reached) simp_all
  with assms show ?thesis
    by (simp add: save_and_report_def drawn_def split: if_splits)
qed

lemma build_with_unreported:
  assumes "fst (build_with env slots steps cfg) = Some PrintError"
  shows "length steps \<le> length slots
   \<and> snd (build_with env slots steps cfg) =
     \<lparr>canvas = lane_ops cfg @ concat (map2 (step_ops env cfg) steps slots),
      ys = drop (length steps) slots,
      files = [(cfg_output cfg, lane_ops cfg @ concat (map2 (step_ops env cfg) steps slots))],
      stdout = []\<rparr>"
proof -
  from assms have s: "\<not> subplots_raises env (cfg_width cfg) (cfg_height cfg)
    \<and> (steps = [] \<or> 0 < cfg_wrap cfg) \<and> length steps \<le> length slots"
    by (intro build_with_saving) simp_all
  then have "build_with env slots steps cfg
      = save_and_report env cfg (drawn env slots steps cfg)"
    by (intro build_with_reached) simp_all
  with assms s show ?thesis
    by (simp add: save_and_report_def drawn_def split: if_splits)
qed

text \<open>
  The instances below are runs in \<open>plain_env\<close>, where matplotlib and \<^verbatim>\<open>print\<close> raise
  nothing, or in an environment that differs from it in what it names.
\<close>

lemma plain_env_quiet:
  "\<not> subplots_raises plain_env width height" "\<not> savefig_raises plain_env cfg picture"
  "\<not> print_raises plain_env line"
  by (simp_all add: plain_env_def)

lemma default_wrap: "0 < cfg_wrap default_config"
  by (simp add: default_config_def)

lemma sequence_steps_length: "length sequence_steps = 23"
  by (simp add: sequence_steps_def)

lemma plain_build_ok: "fst (build_diagram plain_env default_config) = None"
  using build_with_drawn [OF plain_env_quiet(1) default_wrap, of sequence_steps ys_values]
  by (simp add: build_diagram_def sequence_steps_length ys_values_length save_and_report_def
      plain_env_quiet)

subsection \<open>All or nothing\<close>

text \<open>
  C3: the build is all or nothing. For every list of \<^verbatim>\<open>ys\<close> values, every sequence of
  statements, every configuration and whatever matplotlib and \<^verbatim>\<open>print\<close> raise: a run
  that ends without an exception has consumed one value for every statement, has
  written exactly one file, the finished picture at the output path, and has printed
  the message that names this path. A run that ends with an exception has printed
  nothing; and it has written no file if the exception is that of a statement
  (\<^verbatim>\<open>StopIteration\<close> when the values run out, \<^verbatim>\<open>ValueError\<close> when a caption cannot be
  wrapped), of \<^verbatim>\<open>plt.subplots\<close> or of \<^verbatim>\<open>fig.savefig\<close>. The one exception that can
  follow the file is that of \<^verbatim>\<open>print\<close> itself: then every statement has consumed its
  value and the file is the finished picture.
\<close>

theorem build_all_or_nothing:
  "case build_with env slots steps cfg of
     (None, w) \<Rightarrow>
        files w = [(cfg_output cfg, canvas w)]
        \<and> stdout w = [py ''Saved: '' @ cfg_output cfg]
        \<and> length steps \<le> length slots
        \<and> ys w = drop (length steps) slots
   | (Some e, w) \<Rightarrow>
        stdout w = []
        \<and> (if e = PrintError
           then files w = [(cfg_output cfg, canvas w)]
             \<and> length steps \<le> length slots
             \<and> ys w = drop (length steps) slots
           else files w = [])"
proof (cases "build_with env slots steps cfg")
  case (Pair r w)
  show ?thesis
  proof (cases r)
    case None
    with Pair have "fst (build_with env slots steps cfg) = None" by simp
    from build_with_done [OF this] build_with_None [OF this] Pair None show ?thesis by simp
  next
    case (Some e)
    with Pair have ne: "fst (build_with env slots steps cfg) \<noteq> None" by simp
    show ?thesis
    proof (cases "e = PrintError")
      case True
      with Pair Some have "fst (build_with env slots steps cfg) = Some PrintError" by simp
      from build_with_unreported [OF this] Pair Some True show ?thesis by simp
    next
      case False
      with Pair Some have "fst (build_with env slots steps cfg) \<noteq> Some PrintError" by simp
      from build_with_files [OF ne this] build_with_stdout [OF ne] Pair Some False
      show ?thesis by simp
    qed
  qed
qed

theorem build_all_or_nothing_witness:
  "fst (build_diagram plain_env default_config) = None
   \<and> files (snd (build_diagram plain_env default_config))
       = [(py ''postcode-flow.pdf'', canvas (snd (build_diagram plain_env default_config)))]
   \<and> stdout (snd (build_diagram plain_env default_config)) = [py ''Saved: postcode-flow.pdf'']
   \<and> fst (build_diagram plain_env (default_config\<lparr>cfg_wrap := 0\<rparr>)) = Some ValueError
   \<and> files (snd (build_diagram plain_env (default_config\<lparr>cfg_wrap := 0\<rparr>))) = []
   \<and> stdout (snd (build_diagram plain_env (default_config\<lparr>cfg_wrap := 0\<rparr>))) = []
   \<and> fst (build_diagram (plain_env\<lparr>savefig_raises := \<lambda>cfg picture. True\<rparr>) default_config)
       = Some SaveError
   \<and> files (snd (build_diagram (plain_env\<lparr>savefig_raises := \<lambda>cfg picture. True\<rparr>)
        default_config)) = []
   \<and> stdout (snd (build_diagram (plain_env\<lparr>savefig_raises := \<lambda>cfg picture. True\<rparr>)
        default_config)) = []
   \<and> fst (build_diagram (plain_env\<lparr>print_raises := \<lambda>line. True\<rparr>) default_config)
       = Some PrintError
   \<and> files (snd (build_diagram (plain_env\<lparr>print_raises := \<lambda>line. True\<rparr>) default_config))
       = [(py ''postcode-flow.pdf'',
           canvas (snd (build_diagram (plain_env\<lparr>print_raises := \<lambda>line. True\<rparr>)
             default_config)))]
   \<and> stdout (snd (build_diagram (plain_env\<lparr>print_raises := \<lambda>line. True\<rparr>)
        default_config)) = []"
proof -
  let ?cfg0 = "default_config\<lparr>cfg_wrap := 0\<rparr>"
  let ?env1 = "plain_env\<lparr>savefig_raises := \<lambda>cfg picture. True\<rparr>"
  let ?env2 = "plain_env\<lparr>print_raises := \<lambda>line. True\<rparr>"
  have bad: "fst (build_diagram plain_env ?cfg0) = Some ValueError"
    using build_with_bad_wrap [of plain_env ?cfg0 sequence_steps ys_values]
    by (simp add: build_diagram_def ys_values_def sequence_steps_def plain_env_quiet)
  have "\<not> subplots_raises ?env1 (cfg_width default_config) (cfg_height default_config)"
    by (simp add: plain_env_def)
  from build_with_drawn [OF this default_wrap, of sequence_steps ys_values]
  have save: "fst (build_diagram ?env1 default_config) = Some SaveError"
    by (simp add: build_diagram_def sequence_steps_length ys_values_length save_and_report_def)
  have "\<not> subplots_raises ?env2 (cfg_width default_config) (cfg_height default_config)"
    by (simp add: plain_env_def)
  from build_with_drawn [OF this default_wrap, of sequence_steps ys_values]
  have print: "fst (build_diagram ?env2 default_config) = Some PrintError"
    by (simp add: build_diagram_def sequence_steps_length ys_values_length save_and_report_def
        plain_env_def)
  have out: "cfg_output default_config = py ''postcode-flow.pdf''"
    "py ''Saved: '' @ py ''postcode-flow.pdf'' = py ''Saved: postcode-flow.pdf''"
    by (simp_all add: default_config_def py_def)
  from plain_build_ok bad save print out
    build_all_or_nothing [where env = plain_env and slots = ys_values
      and steps = sequence_steps and cfg = default_config]
    build_all_or_nothing [where env = plain_env and slots = ys_values
      and steps = sequence_steps and cfg = ?cfg0]
    build_all_or_nothing [where env = ?env1 and slots = ys_values
      and steps = sequence_steps and cfg = default_config]
    build_all_or_nothing [where env = ?env2 and slots = ys_values
      and steps = sequence_steps and cfg = default_config]
  show ?thesis
    by (auto simp: build_diagram_def split: prod.splits option.splits)
qed

subsection \<open>The order of the statements\<close>

lemma anchors_steps:
  "length steps \<le> length slots \<Longrightarrow>
     anchors (concat (map2 (step_ops env cfg) steps slots)) = take (length steps) slots"
proof (induction steps arbitrary: slots)
  case Nil
  then show ?case by simp
next
  case (Cons s steps)
  then obtain y rest where "slots = y # rest" by (cases slots) auto
  with Cons show ?case by (cases s) simp_all
qed

lemma anchors_lane_ops: "anchors (lane_ops cfg @ ops) = anchors ops"
  by (simp add: lane_ops_def lanes_def)

lemma length_lane_ops: "length (lane_ops cfg) = 2 * length lanes"
  by (simp add: lane_ops_def lanes_def)

lemma step_ops_below:
  "d \<in> set (concat (map2 (step_ops env cfg) steps slots)) \<Longrightarrow> \<exists>y\<in>set slots. op_y d \<le> y"
proof (induction steps arbitrary: slots)
  case Nil
  then show ?case by simp
next
  case (Cons s steps)
  then obtain y rest where sl: "slots = y # rest" by (cases slots) auto
  from Cons.prems sl
  consider "d \<in> set (step_ops env cfg s y)" | "d \<in> set (concat (map2 (step_ops env cfg) steps rest))"
    by auto
  then show ?case
  proof cases
    case 1
    then have "op_y d \<le> y" by (cases s) auto
    with sl show ?thesis by auto
  next
    case 2
    from Cons.IH [OF this] sl show ?thesis by auto
  qed
qed

lemma step_ops_sorted:
  "sorted_wrt (\<lambda>a b. b < a - 0.006) slots \<Longrightarrow>
     sorted_wrt (>) (map op_y (concat (map2 (step_ops env cfg) steps slots)))"
proof (induction steps arbitrary: slots)
  case Nil
  then show ?case by simp
next
  case (Cons s steps)
  show ?case
  proof (cases slots)
    case Nil
    then show ?thesis by simp
  next
    case (Cons y rest)
    with Cons.prems have below: "\<forall>b\<in>set rest. b < y - 0.006" and "sorted_wrt (\<lambda>a b. b < a - 0.006) rest"
      by simp_all
    from Cons.IH [OF this(2)]
    have tail: "sorted_wrt (>) (map op_y (concat (map2 (step_ops env cfg) steps rest)))" .
    have head: "sorted_wrt (>) (map op_y (step_ops env cfg s y))"
      by (cases s) simp_all
    have low: "y - 0.006 \<le> op_y a" if "a \<in> set (step_ops env cfg s y)" for a
      using that by (cases s) auto
    have cross: "\<forall>x\<in>set (map op_y (step_ops env cfg s y)).
        \<forall>z\<in>set (map op_y (concat (map2 (step_ops env cfg) steps rest))). x > z"
    proof (intro ballI)
      fix x z
      assume "x \<in> set (map op_y (step_ops env cfg s y))"
        and "z \<in> set (map op_y (concat (map2 (step_ops env cfg) steps rest)))"
      then obtain a d where a: "a \<in> set (step_ops env cfg s y)" "x = op_y a"
        and d: "d \<in> set (concat (map2 (step_ops env cfg) steps rest))" "z = op_y d"
        unfolding set_map by blast
      from step_ops_below [OF d(1)] obtain b where "b \<in> set rest" "op_y d \<le> b" by blast
      with below low [OF a(1)] a(2) d(2) show "x > z" by fastforce
    qed
    have "map op_y (concat (map2 (step_ops env cfg) (s # steps) slots))
        = map op_y (step_ops env cfg s y) @ map op_y (concat (map2 (step_ops env cfg) steps rest))"
      by (simp add: Cons)
    with head tail cross show ?thesis
      by (simp only: sorted_wrt_append)
  qed
qed

lemma ys_values_gaps: "sorted_wrt (\<lambda>a b. b < a - 0.006) ys_values"
  by (simp add: ys_values_def)

text \<open>
  C4: every statement consumes one value of \<^verbatim>\<open>ys\<close>, in order, and the values are
  strictly decreasing, so that a statement is drawn strictly above the next one,
  whatever the statements are. For every sequence of statements over the values of
  the source, when the build succeeds: the heights given to the statements are the
  first values of \<^verbatim>\<open>ys\<close>, one each in order; these are strictly decreasing; and
  everything the statements draw, in the order of drawing, is at strictly decreasing
  height (an arrow above its caption, its caption above the next statement).
\<close>

theorem steps_render_in_slot_order:
  assumes "fst (build_with env ys_values steps cfg) = None"
  shows "anchors (canvas (snd (build_with env ys_values steps cfg)))
       = take (length steps) ys_values
   \<and> sorted_wrt (>) ys_values
   \<and> sorted_wrt (>)
       (map op_y (drop (2 * length lanes)
          (canvas (snd (build_with env ys_values steps cfg)))))"
proof -
  from build_with_None [OF assms] have len: "length steps \<le> length ys_values" by simp
  from build_with_done [OF assms]
  have c: "canvas (snd (build_with env ys_values steps cfg))
      = lane_ops cfg @ concat (map2 (step_ops env cfg) steps ys_values)"
    by simp
  have "anchors (canvas (snd (build_with env ys_values steps cfg)))
      = take (length steps) ys_values"
    by (simp only: c anchors_lane_ops anchors_steps [OF len])
  moreover have "drop (2 * length lanes) (canvas (snd (build_with env ys_values steps cfg)))
      = concat (map2 (step_ops env cfg) steps ys_values)"
    using length_lane_ops [of cfg] by (simp only: c) simp
  ultimately show ?thesis
    using ys_values_sorted step_ops_sorted [OF ys_values_gaps, of env cfg steps] by simp
qed

theorem steps_render_in_slot_order_witness:
  "fst (build_with plain_env ys_values sequence_steps default_config) = None
   \<and> anchors (canvas (snd (build_with plain_env ys_values sequence_steps default_config)))
       = take (length sequence_steps) ys_values
   \<and> sorted_wrt (>) ys_values
   \<and> sorted_wrt (>)
       (map op_y (drop (2 * length lanes)
          (canvas (snd (build_with plain_env ys_values sequence_steps default_config)))))"
proof -
  have ok: "fst (build_with plain_env ys_values sequence_steps default_config) = None"
    using plain_build_ok by (simp add: build_diagram_def)
  from steps_render_in_slot_order [OF ok] ok show ?thesis by simp
qed

subsection \<open>Arrows in both directions\<close>

text \<open>
  C5: for all x-coordinates \<open>a\<close> and \<open>b\<close>, every height and caption, the arrow from
  \<open>a\<close> to \<open>b\<close> and the arrow from \<open>b\<close> to \<open>a\<close> are lines with swapped ends (the head,
  \<^verbatim>\<open>xy\<close>, at the destination), and their caption boxes are the same: centred at
  \<open>(a + b) / 2\<close>, 0.006 below the line. Both raise, or neither does.
\<close>

theorem arrow_reversed:
  "(let caption = (case fill (tables env) (cfg_wrap cfg) t of
                     Inl e \<Rightarrow> []
                   | Inr tx \<Rightarrow> [BoxText ((a + b) / 2) (y - 0.006) tx (cfg_label_font cfg)])
    in canvas (snd (arrow env cfg a b y t w)) = canvas w @ Annotate (b, y) (a, y) # caption
       \<and> canvas (snd (arrow env cfg b a y t w)) = canvas w @ Annotate (a, y) (b, y) # caption
       \<and> fst (arrow env cfg a b y t w) = fst (arrow env cfg b a y t w))"
  by (simp add: arrow_def box_text_def draw_def add.commute split: sum.splits)

subsection \<open>The first three statements\<close>

text \<open>
  C6: with the four lanes at x = 0.10, 0.37, 0.65 and 0.90, the first three statements
  of the build consume the heights 0.96, 0.93 and 0.90. The first draws an arrow from
  0.10 to 0.37 (head at 0.37) and its caption, the second a caption box alone at
  x = 0.37, the third an arrow from 0.37 to 0.10 (head at 0.10) and its caption. This
  is so in every run in which the figure is made and the wrap width is positive.
\<close>

theorem first_three_steps:
  assumes "0 < cfg_wrap cfg"
    and "\<not> subplots_raises env (cfg_width cfg) (cfg_height cfg)"
  shows "map fst lanes = [0.10, 0.37, 0.65, 0.90]
   \<and> take 3 (anchors (canvas (snd (build_diagram env cfg)))) = [0.96, 0.93, 0.90]
   \<and> (\<exists>t1 t2 t3.
        take 5 (drop (2 * length lanes) (canvas (snd (build_diagram env cfg)))) =
          [Annotate (0.37, 0.96) (0.10, 0.96),
           BoxText 0.235 0.954 t1 (cfg_label_font cfg),
           BoxText 0.37 0.93 t2 (cfg_label_font cfg),
           Annotate (0.10, 0.90) (0.37, 0.90),
           BoxText 0.235 0.894 t3 (cfg_label_font cfg)])"
proof -
  have len: "length sequence_steps \<le> length ys_values"
    by (simp add: sequence_steps_def ys_values_def)
  from build_with_drawn [OF assms(2,1) len]
  have c: "canvas (snd (build_diagram env cfg))
      = lane_ops cfg @ concat (map2 (step_ops env cfg) sequence_steps ys_values)"
    by (simp add: build_diagram_def save_and_report_world drawn_def)
  have d: "drop (2 * length lanes) (canvas (snd (build_diagram env cfg)))
      = concat (map2 (step_ops env cfg) sequence_steps ys_values)"
    using length_lane_ops [of cfg] by (simp only: c) simp
  have "take 5 (concat (map2 (step_ops env cfg) sequence_steps ys_values)) =
      [Annotate (0.37, 0.96) (0.10, 0.96),
       BoxText 0.235 0.954
         (wrapped env cfg
           (py ''GET /api/address-lookup?pc=CB97XU&dataset=LPI&maxresults=100''))
         (cfg_label_font cfg),
       BoxText 0.37 0.93
         (wrapped env cfg
           (py ''WAF / Bot evaluation\<newline>Skip via custom rule when CF-Access headers present''))
         (cfg_label_font cfg),
       Annotate (0.10, 0.90) (0.37, 0.90),
       BoxText 0.235 0.894
         (wrapped env cfg (py ''If blocked '' @ 8594 # py '' 403 Cloudflare challenge page''))
         (cfg_label_font cfg)]"
    by (simp add: sequence_steps_def ys_values_def x_client_def x_edge_def)
  with d have ops: "\<exists>t1 t2 t3.
      take 5 (drop (2 * length lanes) (canvas (snd (build_diagram env cfg)))) =
        [Annotate (0.37, 0.96) (0.10, 0.96),
         BoxText 0.235 0.954 t1 (cfg_label_font cfg),
         BoxText 0.37 0.93 t2 (cfg_label_font cfg),
         Annotate (0.10, 0.90) (0.37, 0.90),
         BoxText 0.235 0.894 t3 (cfg_label_font cfg)]"
    by (simp only:) blast
  have "anchors (canvas (snd (build_diagram env cfg))) = take (length sequence_steps) ys_values"
    by (simp only: c anchors_lane_ops anchors_steps [OF len])
  then have "take 3 (anchors (canvas (snd (build_diagram env cfg)))) = [0.96, 0.93, 0.90]"
    by (simp add: sequence_steps_def ys_values_def)
  moreover have "map fst lanes = [0.10, 0.37, 0.65, 0.90]"
    by (simp add: lanes_def x_client_def x_edge_def x_worker_def x_os_def)
  ultimately show ?thesis using ops by blast
qed

theorem first_three_steps_witness:
  "0 < cfg_wrap default_config
   \<and> \<not> subplots_raises plain_env (cfg_width default_config) (cfg_height default_config)
   \<and> take 3 (anchors (canvas (snd (build_diagram plain_env default_config))))
       = [0.96, 0.93, 0.90]
   \<and> (\<exists>t1 t2 t3.
        take 5 (drop (2 * length lanes) (canvas (snd (build_diagram plain_env default_config)))) =
          [Annotate (0.37, 0.96) (0.10, 0.96),
           BoxText 0.235 0.954 t1 12,
           BoxText 0.37 0.93 t2 12,
           Annotate (0.10, 0.90) (0.37, 0.90),
           BoxText 0.235 0.894 t3 12])"
proof -
  have f: "cfg_label_font default_config = 12"
    by (simp add: default_config_def)
  from first_three_steps [OF default_wrap plain_env_quiet(1)] default_wrap
    plain_env_quiet(1) [of "cfg_width default_config" "cfg_height default_config"]
  show ?thesis
    by (simp add: f)
qed

subsection \<open>Statements and lanes\<close>




subsection \<open>The values of \<^verbatim>\<open>ys\<close> the build consumes\<close>




end
